theory Spec2Isabelle
  imports Complex_Main "HOL-Library.Word"
begin

section \<open>Buffers and the byte-level primitives used by \<open>index.js\<close>\<close>

text \<open>
  A Node \<open>Buffer\<close> is a sequence of bytes. JavaScript numbers are doubles; every number
  computed by the resampler is an integer or a half-integer far below \<open>2^53\<close>, so the
  arithmetic of the source is exact and is modelled over \<open>rat\<close>. A \<open>null\<close> or
  \<open>undefined\<close> argument is \<open>None\<close>. A thrown exception is a value \<open>Inl e\<close>.
\<close>

type_synonym byte = "8 word"
type_synonym buffer = "byte list"

datatype js_error = Error | RangeError | TypeError | SyntaxError

text \<open>\<open>Buffer.alloc(n)\<close>: \<open>n\<close> zero bytes.\<close>

definition Buffer_alloc :: "rat \<Rightarrow> buffer" where
  "Buffer_alloc n = replicate (nat \<lfloor>n\<rfloor>) 0"

text \<open>\<open>Math.round\<close> rounds to the nearest integer, ties towards \<open>+\<infinity>\<close>;
  \<open>Math.floor\<close> rounds down.\<close>

definition Math_round :: "rat \<Rightarrow> int" where
  "Math_round x = \<lfloor>x + 1 / 2\<rfloor>"

definition Math_floor :: "rat \<Rightarrow> int" where
  "Math_floor x = \<lfloor>x\<rfloor>"

text \<open>The signed 16-bit value of two little-endian bytes:
  \<open>val = b0 + b1 * 2 ** 8\<close>, sign-extended from bit 15.\<close>

definition int16_of_bytes :: "byte \<Rightarrow> byte \<Rightarrow> int" where
  "int16_of_bytes b0 b1 =
     (let val = uint b0 + uint b1 * 2 ^ 8
      in if val \<ge> 2 ^ 15 then val - 2 ^ 16 else val)"

text \<open>An offset is accepted when it is an integer and both bytes \<open>buf[offset]\<close> and
  \<open>buf[offset + 1]\<close> exist; every other offset raises a \<open>RangeError\<close>.\<close>

definition offset_ok :: "buffer \<Rightarrow> rat \<Rightarrow> bool" where
  "offset_ok buf offset \<longleftrightarrow>
     of_int \<lfloor>offset\<rfloor> = offset \<and> 0 \<le> offset \<and> offset + 1 < of_nat (length buf)"

definition readInt16LE :: "buffer \<Rightarrow> rat \<Rightarrow> js_error + int" where
  "readInt16LE buf offset =
     (if offset_ok buf offset
      then Inr (int16_of_bytes (buf ! nat \<lfloor>offset\<rfloor>) (buf ! (nat \<lfloor>offset\<rfloor> + 1)))
      else Inl RangeError)"

text \<open>\<open>buf.writeInt16LE(value, offset)\<close> checks the value against
  \<open>[-0x8000, 0x7fff]\<close>, then the offset, then stores \<open>value\<close> and \<open>value >>> 8\<close>
  as bytes.\<close>

definition writeInt16LE :: "buffer \<Rightarrow> int \<Rightarrow> rat \<Rightarrow> js_error + buffer" where
  "writeInt16LE buf v offset =
     (if v > 32767 \<or> v < - 32768 then Inl RangeError
      else if offset_ok buf offset
      then Inr (buf[nat \<lfloor>offset\<rfloor> := word_of_int v,
                    nat \<lfloor>offset\<rfloor> + 1 := word_of_int (v div 2 ^ 8)])
      else Inl RangeError)"

text \<open>Sequencing of steps that may throw.\<close>

definition bind_err :: "js_error + 'a \<Rightarrow> ('a \<Rightarrow> js_error + 'b) \<Rightarrow> js_error + 'b" where
  "bind_err m f = (case m of Inl e \<Rightarrow> Inl e | Inr x \<Rightarrow> f x)"

text \<open>The loop \<open>for (let i = i0; i < bound; i++) body\<close>, threading the state the body
  mutates and stopping at the first exception.\<close>

function for_loop ::
  "nat \<Rightarrow> rat \<Rightarrow> (nat \<Rightarrow> 's \<Rightarrow> js_error + 's) \<Rightarrow> 's \<Rightarrow> js_error + 's" where
  "for_loop i bound body s =
     (if of_nat i < bound
      then (case body i s of Inl e \<Rightarrow> Inl e | Inr s' \<Rightarrow> for_loop (i + 1) bound body s')
      else Inr s)"
  by pat_completeness auto
termination
proof (relation "measure (\<lambda>(i, bound, body, s). nat \<lceil>bound\<rceil> - i)")
  show "wf (measure (\<lambda>(i, bound, body, s). nat \<lceil>bound :: rat\<rceil> - i))"
    by simp
next
  fix i :: nat and bound :: rat and body :: "nat \<Rightarrow> 's \<Rightarrow> js_error + 's" and s x2 :: 's
  assume lt: "of_nat i < bound"
  have "of_nat i < (of_int \<lceil>bound\<rceil> :: rat)"
    using lt le_of_int_ceiling [of bound] by linarith
  then have "int i < \<lceil>bound\<rceil>"
    by (metis of_int_less_iff of_int_of_nat_eq)
  then show "((i + 1, bound, body, x2), (i, bound, body, s))
      \<in> measure (\<lambda>(i, bound, body, s). nat \<lceil>bound\<rceil> - i)"
    by simp
qed

declare for_loop.simps [simp del]

section \<open>Resampler\<close>

definition upsamplingFactor :: nat where
  "upsamplingFactor = 2"

definition downsamplingFactor :: nat where
  "downsamplingFactor = 3"

definition bytesPerSample :: nat where
  "bytesPerSample = 2"

text \<open>Body of the inner loop of \<open>upsample8kTo16k\<close> (index \<open>j\<close>), for the pair read at
  index \<open>i\<close>.\<close>

definition interpolate_body ::
  "int \<Rightarrow> int \<Rightarrow> nat \<Rightarrow> nat \<Rightarrow> buffer \<Rightarrow> js_error + buffer" where
  "interpolate_body currentSample nextSample i j outputBuffer =
     (let interpolationFactor = (of_nat j / of_nat upsamplingFactor :: rat);
          interpolatedSample = Math_round
            (of_int currentSample + (of_int nextSample - of_int currentSample) * interpolationFactor);
          clampedSample = max (- 32768) (min 32767 interpolatedSample);
          outputIndex = (of_nat i * of_nat upsamplingFactor + of_nat j) * of_nat bytesPerSample
      in writeInt16LE outputBuffer clampedSample outputIndex)"

text \<open>Body of the outer loop (index \<open>i\<close>).\<close>

definition upsample_body :: "buffer \<Rightarrow> nat \<Rightarrow> buffer \<Rightarrow> js_error + buffer" where
  "upsample_body audioBuffer i outputBuffer =
     bind_err (readInt16LE audioBuffer (of_nat i * of_nat bytesPerSample)) (\<lambda>currentSample.
     bind_err (readInt16LE audioBuffer ((of_nat i + 1) * of_nat bytesPerSample)) (\<lambda>nextSample.
       for_loop 0 (of_nat upsamplingFactor)
         (interpolate_body currentSample nextSample i) outputBuffer))"

text \<open>Body of the loop that repeats the last sample.\<close>

definition repeat_last_body :: "rat \<Rightarrow> int \<Rightarrow> nat \<Rightarrow> buffer \<Rightarrow> js_error + buffer" where
  "repeat_last_body inputSampleCount lastSample j outputBuffer =
     (let outputIndex =
            ((inputSampleCount - 1) * of_nat upsamplingFactor + of_nat j) * of_nat bytesPerSample
      in writeInt16LE outputBuffer lastSample outputIndex)"

definition upsample8kTo16k :: "buffer option \<Rightarrow> js_error + buffer" where
  "upsample8kTo16k arg =
     (case arg of
        None \<Rightarrow> Inr (Buffer_alloc 0)
      | Some audioBuffer \<Rightarrow>
          if length audioBuffer = 0 then Inr (Buffer_alloc 0)
          else
            let inputSampleCount = (of_nat (length audioBuffer) / of_nat bytesPerSample :: rat)
            in if inputSampleCount < 2 then Inr audioBuffer
               else
                 let outputSampleCount = inputSampleCount * of_nat upsamplingFactor;
                     outputBuffer = Buffer_alloc (outputSampleCount * of_nat bytesPerSample)
                 in bind_err (for_loop 0 (inputSampleCount - 1)
                                (upsample_body audioBuffer) outputBuffer) (\<lambda>outputBuffer.
                    bind_err (readInt16LE audioBuffer
                                ((inputSampleCount - 1) * of_nat bytesPerSample)) (\<lambda>lastSample.
                      for_loop 0 (of_nat upsamplingFactor)
                        (repeat_last_body inputSampleCount lastSample) outputBuffer)))"

text \<open>Body of the loop of \<open>downsample24kTo8k\<close>.\<close>

definition downsample_body :: "buffer \<Rightarrow> nat \<Rightarrow> buffer \<Rightarrow> js_error + buffer" where
  "downsample_body audioBuffer i outputBuffer =
     (let inputIndex = i * downsamplingFactor
      in bind_err (readInt16LE audioBuffer (of_nat inputIndex * of_nat bytesPerSample)) (\<lambda>sample.
           writeInt16LE outputBuffer sample (of_nat i * of_nat bytesPerSample)))"

definition downsample24kTo8k :: "buffer option \<Rightarrow> js_error + buffer" where
  "downsample24kTo8k arg =
     (case arg of
        None \<Rightarrow> Inr (Buffer_alloc 0)
      | Some audioBuffer \<Rightarrow>
          if length audioBuffer = 0 then Inr (Buffer_alloc 0)
          else
            let inputSampleCount = (of_nat (length audioBuffer) / of_nat bytesPerSample :: rat)
            in if inputSampleCount < of_nat downsamplingFactor then Inr audioBuffer
               else
                 let outputSampleCount = Math_floor (inputSampleCount / of_nat downsamplingFactor);
                     outputBuffer = Buffer_alloc (of_int outputSampleCount * of_nat bytesPerSample)
                 in for_loop 0 (of_int outputSampleCount)
                      (downsample_body audioBuffer) outputBuffer)"

text \<open>The samples a buffer holds: sample \<open>k\<close> is the little-endian signed 16-bit value of
  bytes \<open>2k\<close> and \<open>2k + 1\<close>.\<close>

definition samples :: "buffer \<Rightarrow> int list" where
  "samples buf =
     map (\<lambda>k. int16_of_bytes (buf ! (2 * k)) (buf ! (2 * k + 1))) [0..<length buf div 2]"


section \<open>Model name normalisation\<close>

text \<open>
  JavaScript strings are modelled as \<open>string\<close>, one \<open>char\<close> per code unit in the range
  \<open>U+0000\<close> to \<open>U+00FF\<close>. In that range \<open>String.prototype.trim\<close> removes tab, line feed,
  vertical tab, form feed, carriage return, space and no-break space, and
  \<open>toLowerCase\<close> maps \<open>A\<close> to \<open>Z\<close> and the Latin-1 capitals (all of \<open>U+00C0\<close> to
  \<open>U+00DE\<close> but the multiplication sign) to the code unit 32 above. An unset
  environment variable (\<open>undefined\<close>) is \<open>None\<close>.
\<close>

definition isWhiteSpace :: "char \<Rightarrow> bool" where
  "isWhiteSpace c \<longleftrightarrow> (of_char c :: nat) \<in> {9, 10, 11, 12, 13, 32, 160}"

definition trim :: "string \<Rightarrow> string" where
  "trim s = rev (dropWhile isWhiteSpace (rev (dropWhile isWhiteSpace s)))"

definition lowerChar :: "char \<Rightarrow> char" where
  "lowerChar c =
     (let n = (of_char c :: nat)
      in if (65 \<le> n \<and> n \<le> 90) \<or> (192 \<le> n \<and> n \<le> 222 \<and> n \<noteq> 215)
         then char_of (n + 32) else c)"

definition toLowerCase :: "string \<Rightarrow> string" where
  "toLowerCase s = map lowerChar s"

definition startsWith :: "string \<Rightarrow> string \<Rightarrow> bool" where
  "startsWith s p \<longleftrightarrow> take (length p) s = p"

fun includes_str :: "string \<Rightarrow> string \<Rightarrow> bool" where
  "includes_str [] p = (p = [])"
| "includes_str (c # s) p = (startsWith (c # s) p \<or> includes_str s p)"

definition resolveLiveModel :: "string option \<Rightarrow> string" where
  "resolveLiveModel raw =
     (let val = trim (case raw of None \<Rightarrow> [] | Some r \<Rightarrow> r)
      in if val = [] then ''models/gemini-live-2.5-flash-preview''
         else
           let lower = toLowerCase val
           in if includes_str lower ''flash-live'' then ''models/gemini-live-2.5-flash-preview''
              else if includes_str lower ''native-audio''
              then ''models/gemini-2.5-flash-preview-native-audio-dialog''
              else if startsWith lower ''models/'' then val else ''models/'' @ val)"

text \<open>\<open>parseInt(process.env.INTERVAL_MS) || 20\<close>; the argument is the result of
  \<open>parseInt\<close>, \<open>None\<close> for \<open>NaN\<close>.\<close>

definition INTERVAL_MS :: "int option \<Rightarrow> int" where
  "INTERVAL_MS parsed = (case parsed of None \<Rightarrow> 20 | Some n \<Rightarrow> if n = 0 then 20 else n)"

section \<open>The stream controller \<open>handleAudioStream\<close>\<close>

text \<open>
  One request is a record of the variables the closures of \<open>handleAudioStream\<close> share,
  together with the calls it has made on its collaborators, in order (\<open>effects\<close>).
  \<open>session\<close> says whether the SDK session variable is non-null, \<open>ws\<close> holds the
  \<open>readyState\<close> of the raw WebSocket when there is one, \<open>running\<close> is the set of
  interval timers that have been set and not cleared, and \<open>listening\<close> says whether the
  event handlers that follow the \<open>try\<close> block have been registered. A send call on a
  transport is recorded with the raw bytes of its frame (the source sends their base64
  text) and with whether the call returned or raised. Of the console only
  \<open>console.error\<close> is recorded.
\<close>

datatype call_result = Returned | Raised

datatype readyState = CONNECTING | OPEN | CLOSING | CLOSED

datatype timer = inputAudioBufferInterval | outputAudioBufferInterval

datatype action =
    SetInterval timer int
  | ClearInterval timer
  | SessionSendRealtimeInput buffer call_result
  | WsSend buffer call_result
  | SessionClose
  | WsClose
  | ResStatus nat
  | ResWrite buffer
  | ResEnd
  | ConsoleError

record stream =
  session :: bool
  ws :: "readyState option"
  inputAudioBuffer :: buffer
  outputAudioBuffer :: buffer
  listening :: bool
  running :: "timer set"
  effects :: "action list"

definition INPUT_CHUNK_BYTES_16K_100MS :: nat where
  "INPUT_CHUNK_BYTES_16K_100MS = 3200"

datatype connect_outcome = ConnectThrows js_error | Connected

text \<open>The variables of a request before \<open>handleAudioStream\<close> has done anything.\<close>

definition request_start :: stream where
  "request_start =
     \<lparr>session = False, ws = None, inputAudioBuffer = [], outputAudioBuffer = [],
      listening = False, running = {}, effects = []\<rparr>"

text \<open>The \<open>try\<close> block of \<open>handleAudioStream\<close>. \<open>explicitWsUrl\<close> says whether
  \<open>GEMINI_WS_URL\<close> is set, \<open>outcome\<close> whether \<open>new WebSocket\<close> (respectively
  \<open>connectToGeminiSdk\<close>) throws, \<open>silence_throws\<close> whether sending the initial silence
  throws; the inner \<open>try\<close>/\<open>catch\<close> logs that error.\<close>

definition establish ::
  "bool \<Rightarrow> connect_outcome \<Rightarrow> bool \<Rightarrow> stream \<Rightarrow> js_error + stream" where
  "establish explicitWsUrl outcome silence_throws st =
     (if explicitWsUrl then
        (case outcome of
           ConnectThrows e \<Rightarrow> Inl e
         | Connected \<Rightarrow> Inr (st\<lparr>ws := Some CONNECTING\<rparr>))
      else
        (case outcome of
           ConnectThrows e \<Rightarrow> Inl e
         | Connected \<Rightarrow>
             Inr (st\<lparr>session := True,
                     effects := effects st @
                       (if silence_throws
                        then [SessionSendRealtimeInput (Buffer_alloc 3200) Raised, ConsoleError]
                        else [SessionSendRealtimeInput (Buffer_alloc 3200) Returned])\<rparr>)))"

text \<open>The body of \<open>handleAudioStream\<close> up to the registration of the handlers: the
  \<open>try\<close> block, its \<open>catch\<close> (\<open>console.error\<close>, \<open>res.status(502).end()\<close>, return),
  and after it the buffers, the two timers and the handlers. \<open>interval_env\<close> is the
  result of \<open>parseInt(process.env.INTERVAL_MS)\<close>.\<close>

definition handleAudioStream ::
  "bool \<Rightarrow> connect_outcome \<Rightarrow> bool \<Rightarrow> int option \<Rightarrow> stream" where
  "handleAudioStream explicitWsUrl outcome silence_throws interval_env =
     (case establish explicitWsUrl outcome silence_throws request_start of
        Inl e \<Rightarrow>
          request_start\<lparr>effects := effects request_start @ [ConsoleError, ResStatus 502, ResEnd]\<rparr>
      | Inr st \<Rightarrow>
          st\<lparr>inputAudioBuffer := Buffer_alloc 0, outputAudioBuffer := Buffer_alloc 0,
             listening := True,
             running := {inputAudioBufferInterval, outputAudioBufferInterval},
             effects := effects st
               @ [SetInterval inputAudioBufferInterval 100,
                  SetInterval outputAudioBufferInterval (INTERVAL_MS interval_env)]\<rparr>)"

text \<open>The uplink timer callback. \<open>send_throws\<close> says whether the transport's send call
  raises; the \<open>try\<close>/\<open>catch\<close> around it logs the error.\<close>

definition inputAudioBuffer_tick :: "bool \<Rightarrow> stream \<Rightarrow> stream" where
  "inputAudioBuffer_tick send_throws st =
     (if length (inputAudioBuffer st) \<ge> INPUT_CHUNK_BYTES_16K_100MS then
        let chunk = take INPUT_CHUNK_BYTES_16K_100MS (inputAudioBuffer st);
            st1 = st\<lparr>inputAudioBuffer := drop INPUT_CHUNK_BYTES_16K_100MS (inputAudioBuffer st)\<rparr>
        in if session st1 then
             st1\<lparr>effects := effects st1 @
                     (if send_throws then [SessionSendRealtimeInput chunk Raised, ConsoleError]
                      else [SessionSendRealtimeInput chunk Returned])\<rparr>
           else if ws st1 = Some OPEN then
             st1\<lparr>effects := effects st1 @
                     (if send_throws then [WsSend chunk Raised, ConsoleError]
                      else [WsSend chunk Returned])\<rparr>
           else st1
      else st)"

text \<open>The downlink timer callback.\<close>

definition outputAudioBuffer_tick :: "stream \<Rightarrow> stream" where
  "outputAudioBuffer_tick st =
     (if length (outputAudioBuffer st) \<ge> 320 then
        let chunk = take 320 (outputAudioBuffer st)
        in st\<lparr>effects := effects st @ [ResWrite chunk],
               outputAudioBuffer := drop 320 (outputAudioBuffer st)\<rparr>
      else st)"

text \<open>Parsed JSON. \<open>JSON.parse\<close> keeps the last of duplicate keys.\<close>

datatype json =
    JNull | JBool bool | JNum rat | JStr string | JArr "json list" | JObj "(string \<times> json) list"

text \<open>Property access with optional chaining, \<open>v?.name\<close>, for the names the handler
  reads; \<open>None\<close> is \<open>undefined\<close>.\<close>

fun get_prop :: "json option \<Rightarrow> string \<Rightarrow> json option" where
  "get_prop (Some (JObj kvs)) name = map_of (rev kvs) name"
| "get_prop _ name = None"

fun truthy :: "json option \<Rightarrow> bool" where
  "truthy None = False"
| "truthy (Some JNull) = False"
| "truthy (Some (JBool b)) = b"
| "truthy (Some (JNum x)) = (x \<noteq> 0)"
| "truthy (Some (JStr s)) = (s \<noteq> [])"
| "truthy (Some (JArr xs)) = True"
| "truthy (Some (JObj kvs)) = True"

text \<open>\<open>a || b\<close>.\<close>

definition js_or :: "json option \<Rightarrow> json option \<Rightarrow> json option" where
  "js_or a b = (if truthy a then a else b)"

text \<open>\<open>message?.delta || message?.audio || message?.inlineData?.data\<close>.\<close>

definition audio_field :: "json \<Rightarrow> json option" where
  "audio_field message =
     js_or (js_or (get_prop (Some message) ''delta'') (get_prop (Some message) ''audio''))
           (get_prop (get_prop (Some message) ''inlineData'') ''data'')"

text \<open>The \<open>message\<close> handler of the raw WebSocket. Its argument is the outcome of
  \<open>JSON.parse(data)\<close>. \<open>Buffer_from\<close> stands for the library call
  \<open>Buffer.from(base64, "base64")\<close>, which decodes a string and raises a \<open>TypeError\<close> on
  values it does not accept.\<close>

definition ws_on_message ::
  "(json option \<Rightarrow> js_error + buffer) \<Rightarrow> js_error + json \<Rightarrow> stream \<Rightarrow> stream" where
  "ws_on_message Buffer_from parsed st =
     (case bind_err parsed (\<lambda>message.
             let base64 = audio_field message
             in if truthy base64 then
                  bind_err (Buffer_from base64) (\<lambda>decoded.
                  bind_err (downsample24kTo8k (Some decoded)) (\<lambda>resampled.
                    Inr (st\<lparr>outputAudioBuffer := outputAudioBuffer st @ resampled\<rparr>)))
                else Inr st) of
        Inl error \<Rightarrow> st\<lparr>effects := effects st @ [ConsoleError]\<rparr>
      | Inr st' \<Rightarrow> st')"

text \<open>A message that is unparseable JSON or carries no truthy audio field.\<close>

definition unrecognized :: "js_error + json \<Rightarrow> bool" where
  "unrecognized parsed =
     (case parsed of Inl e \<Rightarrow> True | Inr message \<Rightarrow> \<not> truthy (audio_field message))"

definition clearInterval :: "timer \<Rightarrow> stream \<Rightarrow> stream" where
  "clearInterval t st = st\<lparr>running := running st - {t}, effects := effects st @ [ClearInterval t]\<rparr>"

definition res_end :: "stream \<Rightarrow> stream" where
  "res_end st = st\<lparr>effects := effects st @ [ResEnd]\<rparr>"

text \<open>The \<open>close\<close> and \<open>error\<close> handlers of the raw WebSocket.\<close>

definition ws_on_close :: "stream \<Rightarrow> stream" where
  "ws_on_close st =
     res_end (clearInterval outputAudioBufferInterval (clearInterval inputAudioBufferInterval st))"

definition ws_on_error :: "stream \<Rightarrow> stream" where
  "ws_on_error st =
     res_end (clearInterval outputAudioBufferInterval (clearInterval inputAudioBufferInterval
       (st\<lparr>effects := effects st @ [ConsoleError]\<rparr>)))"

text \<open>\<open>session && session.close && session.close()\<close> and
  \<open>ws && ws.close && ws.close()\<close>; a socket that is not yet closed goes to
  \<open>CLOSING\<close>.\<close>

definition close_transport :: "stream \<Rightarrow> stream" where
  "close_transport st =
     (let st1 = (if session st then st\<lparr>effects := effects st @ [SessionClose]\<rparr> else st)
      in case ws st1 of
           None \<Rightarrow> st1
         | Some rs \<Rightarrow> st1\<lparr>ws := Some (if rs = CLOSED then CLOSED else CLOSING),
                            effects := effects st1 @ [WsClose]\<rparr>)"

text \<open>The \<open>data\<close>, \<open>end\<close> and \<open>error\<close> handlers of the client request. An exception of
  the resampler is not caught in the \<open>data\<close> handler.\<close>

definition req_on_data :: "buffer \<Rightarrow> stream \<Rightarrow> js_error + stream" where
  "req_on_data chunk st =
     bind_err (upsample8kTo16k (Some chunk)) (\<lambda>resampled.
       Inr (st\<lparr>inputAudioBuffer := inputAudioBuffer st @ resampled\<rparr>))"

definition req_on_end :: "stream \<Rightarrow> stream" where
  "req_on_end st = close_transport st"

definition req_on_error :: "stream \<Rightarrow> stream" where
  "req_on_error st = close_transport (st\<lparr>effects := effects st @ [ConsoleError]\<rparr>)"

text \<open>The events of the event loop that reach one request. A timer fires only while it
  is running and a WebSocket event only when there is a WebSocket. The handlers of the
  request, of the WebSocket and of the timers exist only once the code after the \<open>try\<close>
  block has registered them. The callbacks of the SDK are handed over in the connect call
  itself and are guarded by nothing: \<open>onclose\<close> only prints, \<open>onerror\<close> calls
  \<open>console.error\<close>; the \<open>onmessage\<close> callback, which only appends to the downlink
  buffer, is not among the events. The result \<open>Inl e\<close> is an exception that leaves the
  handler uncaught.\<close>

datatype event =
    InputTick bool
  | OutputTick
  | WsOpen
  | WsMessage "js_error + json"
  | WsCloseEvent
  | WsErrorEvent
  | SdkClose
  | SdkError
  | ReqData buffer
  | ReqEnd
  | ReqError

fun dispatch ::
  "(json option \<Rightarrow> js_error + buffer) \<Rightarrow> event \<Rightarrow> stream \<Rightarrow> js_error + stream" where
  "dispatch Buffer_from (InputTick send_throws) st =
     Inr (if inputAudioBufferInterval \<in> running st then inputAudioBuffer_tick send_throws st else st)"
| "dispatch Buffer_from OutputTick st =
     Inr (if outputAudioBufferInterval \<in> running st then outputAudioBuffer_tick st else st)"
| "dispatch Buffer_from WsOpen st =
     Inr (case ws st of None \<Rightarrow> st | Some rs \<Rightarrow> st\<lparr>ws := Some OPEN\<rparr>)"
| "dispatch Buffer_from (WsMessage parsed) st =
     Inr (case ws st of None \<Rightarrow> st | Some rs \<Rightarrow> ws_on_message Buffer_from parsed st)"
| "dispatch Buffer_from WsCloseEvent st =
     Inr (case ws st of None \<Rightarrow> st | Some rs \<Rightarrow> ws_on_close (st\<lparr>ws := Some CLOSED\<rparr>))"
| "dispatch Buffer_from WsErrorEvent st =
     Inr (case ws st of None \<Rightarrow> st | Some rs \<Rightarrow> ws_on_error st)"
| "dispatch Buffer_from SdkClose st = Inr st"
| "dispatch Buffer_from SdkError st = Inr (st\<lparr>effects := effects st @ [ConsoleError]\<rparr>)"
| "dispatch Buffer_from (ReqData chunk) st = req_on_data chunk st"
| "dispatch Buffer_from ReqEnd st = Inr (req_on_end st)"
| "dispatch Buffer_from ReqError st = Inr (req_on_error st)"

fun sdk_callback :: "event \<Rightarrow> bool" where
  "sdk_callback SdkClose = True"
| "sdk_callback SdkError = True"
| "sdk_callback ev = False"

definition step ::
  "(json option \<Rightarrow> js_error + buffer) \<Rightarrow> event \<Rightarrow> stream \<Rightarrow> js_error + stream" where
  "step Buffer_from ev st =
     (if listening st \<or> sdk_callback ev then dispatch Buffer_from ev st else Inr st)"

fun run ::
  "(json option \<Rightarrow> js_error + buffer) \<Rightarrow> event list \<Rightarrow> stream \<Rightarrow> js_error + stream" where
  "run Buffer_from [] st = Inr st"
| "run Buffer_from (ev # evs) st = bind_err (step Buffer_from ev st) (run Buffer_from evs)"

text \<open>The frames that the send calls of a list of calls have passed to the remote
  transport, a call that raised passing nothing, and the frames the list writes to the
  client response.\<close>

fun sent_frames :: "action list \<Rightarrow> buffer list" where
  "sent_frames [] = []"
| "sent_frames (SessionSendRealtimeInput f Returned # as) = f # sent_frames as"
| "sent_frames (WsSend f Returned # as) = f # sent_frames as"
| "sent_frames (a # as) = sent_frames as"

fun written_frames :: "action list \<Rightarrow> buffer list" where
  "written_frames [] = []"
| "written_frames (ResWrite f # as) = f # written_frames as"
| "written_frames (a # as) = written_frames as"

text \<open>An instance of \<open>Buffer.from\<close> for concrete runs: it accepts nothing.\<close>

definition Buffer_from_none :: "json option \<Rightarrow> js_error + buffer" where
  "Buffer_from_none v = Inl TypeError"

text \<open>The value one interpolation step writes: the rounded, clamped sample.\<close>

definition interpolated :: "int \<Rightarrow> int \<Rightarrow> nat \<Rightarrow> int" where
  "interpolated currentSample nextSample j =
     max (- 32768) (min 32767 (Math_round
       (of_int currentSample + (of_int nextSample - of_int currentSample) * (of_nat j / 2))))"

section \<open>Bytes, samples and loops\<close>


lemma int16_of_bytes_range: "- 32768 \<le> int16_of_bytes a b \<and> int16_of_bytes a b \<le> 32767"
proof -
  define x y where "x = uint a" and "y = uint b"
  have "0 \<le> x" "x < 256" "0 \<le> y" "y < 256"
    using uint_lt2p [of a] uint_lt2p [of b] by (simp_all add: x_def y_def)
  then have "- 32768 \<le> (if 32768 \<le> x + y * 256 then x + y * 256 - 65536 else x + y * 256)
      \<and> (if 32768 \<le> x + y * 256 then x + y * 256 - 65536 else x + y * 256) \<le> 32767"
    by auto
  moreover have "int16_of_bytes a b
      = (if 32768 \<le> x + y * 256 then x + y * 256 - 65536 else x + y * 256)"
    by (simp add: int16_of_bytes_def Let_def x_def y_def)
  ultimately show ?thesis
    by (simp only:)
qed

lemma int16_of_bytes_write:
  assumes "- 32768 \<le> v" "v \<le> 32767"
  shows "int16_of_bytes (word_of_int v) (word_of_int (v div 256)) = v"
proof -
  have lo: "uint (word_of_int v :: byte) = v mod 256"
    by (simp add: uint_word_of_int)
  have hi: "uint (word_of_int (v div 256) :: byte) = v div 256 mod 256"
    by (simp add: uint_word_of_int)
  have split: "v mod 65536 = 256 * (v div 256 mod 256) + v mod 256"
    using zmod_zmult2_eq [of 256 v 256] by simp
  have "v mod 65536 = (if v < 0 then v + 65536 else v)"
  proof (cases "v < 0")
    case True
    then have "(v + 65536) mod 65536 = v + 65536"
      using assms by (intro mod_pos_pos_trivial) simp_all
    then show ?thesis using True by simp
  next
    case False
    then show ?thesis using assms by simp
  qed
  moreover have "uint (word_of_int v :: byte) + uint (word_of_int (v div 256) :: byte) * 2 ^ 8
      = v mod 65536"
    using split lo hi by simp
  ultimately have "int16_of_bytes (word_of_int v) (word_of_int (v div 256))
      = (if 32768 \<le> (if v < 0 then v + 65536 else v)
         then (if v < 0 then v + 65536 else v) - 65536 else (if v < 0 then v + 65536 else v))"
    by (simp only: int16_of_bytes_def Let_def power_numeral_reduce) simp
  then show ?thesis using assms by simp
qed

lemma offset_ok_of_nat [simp]: "offset_ok buf (of_nat k) \<longleftrightarrow> k + 1 < length buf"
proof -
  have "(of_nat k + 1 < (of_nat (length buf) :: rat)) = (k + 1 < length buf)"
  proof -
    have "(of_nat k + 1 :: rat) = of_nat (k + 1)" by simp
    then show ?thesis by (simp only: of_nat_less_iff)
  qed
  then show ?thesis by (simp add: offset_ok_def)
qed

lemma length_samples [simp]: "length (samples buf) = length buf div 2"
  by (simp add: samples_def)

lemma nth_samples:
  "k < length buf div 2 \<Longrightarrow> samples buf ! k = int16_of_bytes (buf ! (2 * k)) (buf ! (2 * k + 1))"
  by (simp add: samples_def)

lemma readInt16LE_sample:
  assumes "k < length buf div 2"
  shows "readInt16LE buf (of_nat (2 * k)) = Inr (samples buf ! k)"
proof -
  from assms have "2 * k + 1 < length buf" by arith
  then show ?thesis
    unfolding readInt16LE_def using assms
    by (simp add: nth_samples offset_ok_of_nat del: of_nat_mult)
qed

lemma writeInt16LE_sample:
  assumes v: "- 32768 \<le> v" "v \<le> 32767" and k: "k < length buf div 2"
  shows "\<exists>buf'. writeInt16LE buf v (of_nat (2 * k)) = Inr buf' \<and> length buf' = length buf
           \<and> samples buf' = (samples buf)[k := v]"
proof -
  let ?buf' = "buf[2 * k := word_of_int v, 2 * k + 1 := word_of_int (v div 2 ^ 8)]"
  from k have inb: "2 * k + 1 < length buf" by arith
  have w: "writeInt16LE buf v (of_nat (2 * k)) = Inr ?buf'"
    unfolding writeInt16LE_def using v inb by (simp add: offset_ok_of_nat del: of_nat_mult)
  have "samples ?buf' = (samples buf)[k := v]"
  proof (rule nth_equalityI)
    show "length (samples ?buf') = length ((samples buf)[k := v])"
      by (simp add: length_samples)
  next
    fix m assume "m < length (samples ?buf')"
    then have m: "m < length buf div 2" by simp
    then have mb: "2 * m + 1 < length buf" by arith
    show "samples ?buf' ! m = (samples buf)[k := v] ! m"
    proof (cases "m = k")
      case True
      with m inb show ?thesis
        by (simp add: nth_samples int16_of_bytes_write [OF v])
    next
      case False
      then have "2 * m \<noteq> 2 * k" "2 * m \<noteq> 2 * k + 1" "2 * m + 1 \<noteq> 2 * k" "2 * m + 1 \<noteq> 2 * k + 1"
        by arith+
      with m mb False show ?thesis
        by (simp add: nth_samples)
    qed
  qed
  with w show ?thesis by simp
qed



lemma for_loop_invariant:
  assumes "I i s" and "i \<le> n"
    and step: "\<And>k t. i \<le> k \<Longrightarrow> k < n \<Longrightarrow> I k t \<Longrightarrow> \<exists>t'. body k t = Inr t' \<and> I (Suc k) t'"
  shows "\<exists>t. for_loop i (of_nat n) body s = Inr t \<and> I n t"
  using assms
proof (induction "n - i" arbitrary: i s)
  case 0
  then have "i = n" by simp
  with 0 show ?case by (simp add: for_loop.simps [of n])
next
  case (Suc d)
  then have lt: "i < n" by simp
  from Suc.prems(3) [OF le_refl lt Suc.prems(1)]
  obtain t' where t': "body i s = Inr t'" "I (Suc i) t'" by blast
  have "\<exists>t. for_loop (Suc i) (of_nat n) body t' = Inr t \<and> I n t"
  proof (rule Suc.hyps(1))
    show "d = n - Suc i" using Suc.hyps(2) by simp
    show "I (Suc i) t'" by (rule t')
    show "Suc i \<le> n" using lt by simp
    show "\<exists>t'. body k t = Inr t' \<and> I (Suc k) t'" if "Suc i \<le> k" "k < n" "I k t" for k t
      using that Suc.prems(3) [of k t] by simp
  qed
  then show ?case
    using lt t' by (simp add: for_loop.simps [of i])
qed

lemma for_loop_two:
  "for_loop 0 (of_nat upsamplingFactor) body s = bind_err (body 0 s) (body 1)"
  by (simp add: for_loop.simps upsamplingFactor_def bind_err_def split: sum.splits)


lemma interpolated_range: "- 32768 \<le> interpolated c x j \<and> interpolated c x j \<le> 32767"
  by (simp add: interpolated_def)

lemma Math_round_of_int: "Math_round (of_int c) = c"
proof -
  have "\<lfloor>of_int c + (1 / 2 :: rat)\<rfloor> = c"
    by (rule floor_unique) simp_all
  then show ?thesis by (simp only: Math_round_def)
qed

lemma interpolated_0:
  assumes "- 32768 \<le> c" "c \<le> 32767"
  shows "interpolated c x 0 = c"
proof -
  show ?thesis using assms by (simp add: interpolated_def Math_round_of_int)
qed

lemma interpolated_same:
  assumes "- 32768 \<le> c" "c \<le> 32767"
  shows "interpolated c c j = c"
proof -
  show ?thesis using assms by (simp add: interpolated_def Math_round_of_int)
qed

lemma interpolate_body_sample:
  assumes "2 * i + j < length ob div 2"
  shows "\<exists>ob'. interpolate_body c x i j ob = Inr ob' \<and> length ob' = length ob
           \<and> samples ob' = (samples ob)[2 * i + j := interpolated c x j]"
proof -
  have idx: "((of_nat i * of_nat upsamplingFactor + of_nat j) * of_nat bytesPerSample :: rat)
      = of_nat (2 * (2 * i + j))"
    by (simp add: upsamplingFactor_def bytesPerSample_def algebra_simps)
  have body: "interpolate_body c x i j ob
      = writeInt16LE ob (interpolated c x j) (of_nat (2 * (2 * i + j)))"
    unfolding interpolate_body_def Let_def idx
    by (simp add: interpolated_def upsamplingFactor_def)
  show ?thesis
    unfolding body
    using writeInt16LE_sample [of "interpolated c x j" "2 * i + j" ob] interpolated_range [of c x j] assms
    by simp
qed

lemma upsample_body_sample:
  assumes i: "i + 1 < length b div 2" and ob: "2 * i + 1 < length ob div 2"
  shows "\<exists>ob'. upsample_body b i ob = Inr ob' \<and> length ob' = length ob
           \<and> samples ob' = (samples ob)[2 * i := interpolated (samples b ! i) (samples b ! (i + 1)) 0,
                2 * i + 1 := interpolated (samples b ! i) (samples b ! (i + 1)) 1]"
proof -
  let ?c = "samples b ! i" and ?x = "samples b ! (i + 1)"
  have o1: "(of_nat i * of_nat bytesPerSample :: rat) = of_nat (2 * i)"
    by (simp add: bytesPerSample_def)
  have o2: "((of_nat i + 1) * of_nat bytesPerSample :: rat) = of_nat (2 * (i + 1))"
    by (simp add: bytesPerSample_def algebra_simps)
  have r1: "readInt16LE b (of_nat (2 * i)) = Inr ?c"
    using i by (intro readInt16LE_sample) simp
  have r2: "readInt16LE b (of_nat (2 * (i + 1))) = Inr ?x"
    using i by (intro readInt16LE_sample) simp
  have body: "upsample_body b i ob
      = bind_err (interpolate_body ?c ?x i 0 ob) (interpolate_body ?c ?x i 1)"
    unfolding upsample_body_def o1 o2 r1 r2 by (simp add: bind_err_def for_loop_two)
  from ob obtain ob1 where w1: "interpolate_body ?c ?x i 0 ob = Inr ob1" "length ob1 = length ob"
      "samples ob1 = (samples ob)[2 * i := interpolated ?c ?x 0]"
    using interpolate_body_sample [of i 0 ob ?c ?x] by auto
  from ob w1(2) obtain ob2 where w2: "interpolate_body ?c ?x i 1 ob1 = Inr ob2" "length ob2 = length ob1"
      "samples ob2 = (samples ob1)[2 * i + 1 := interpolated ?c ?x 1]"
    using interpolate_body_sample [of i 1 ob1 ?c ?x] by auto
  show ?thesis
    unfolding body using w1 w2 by (simp add: bind_err_def)
qed


lemma repeat_last_body_sample:
  assumes n: "1 \<le> n" and ob: "2 * (n - 1) + j < length ob div 2"
    and v: "- 32768 \<le> v" "v \<le> 32767"
  shows "\<exists>ob'. repeat_last_body (of_nat n) v j ob = Inr ob' \<and> length ob' = length ob
           \<and> samples ob' = (samples ob)[2 * (n - 1) + j := v]"
proof -
  have pred: "(of_nat n - 1 :: rat) = of_nat (n - 1)"
    using n by (simp add: of_nat_diff)
  have idx: "(((of_nat n - 1) * of_nat upsamplingFactor + of_nat j) * of_nat bytesPerSample :: rat)
      = of_nat (2 * (2 * (n - 1) + j))"
    unfolding pred by (simp add: upsamplingFactor_def bytesPerSample_def algebra_simps)
  have body: "repeat_last_body (of_nat n) v j ob = writeInt16LE ob v (of_nat (2 * (2 * (n - 1) + j)))"
    unfolding repeat_last_body_def Let_def idx ..
  show ?thesis
    unfolding body using writeInt16LE_sample [OF v, of "2 * (n - 1) + j" ob] ob by simp
qed

lemma upsample_loop_even:
  assumes len: "length b = 2 * n" and n: "2 \<le> n" and ob: "length ob = 4 * n"
  shows "\<exists>ob'. for_loop 0 (of_nat (n - 1)) (upsample_body b) ob = Inr ob' \<and> length ob' = 4 * n
     \<and> (\<forall>i<n - 1. \<forall>j<2. samples ob' ! (2 * i + j)
            = interpolated (samples b ! i) (samples b ! (i + 1)) j)"
proof -
  let ?I = "\<lambda>k t. length t = 4 * n \<and> (\<forall>i<k. \<forall>j<2. samples t ! (2 * i + j)
            = interpolated (samples b ! i) (samples b ! (i + 1)) j)"
  have "\<exists>t. for_loop 0 (of_nat (n - 1)) (upsample_body b) ob = Inr t \<and> ?I (n - 1) t"
  proof (rule for_loop_invariant [where I = ?I])
    show "?I 0 ob" using ob by simp
    show "0 \<le> n - 1" by simp
  next
    fix k t assume k: "k < n - 1" and inv: "?I k t"
    let ?c = "samples b ! k" and ?x = "samples b ! (k + 1)"
    from k len have kb: "k + 1 < length b div 2" by simp
    from k inv have kt: "2 * k + 1 < length t div 2" by simp
    from upsample_body_sample [OF kb kt]
    obtain t' where t': "upsample_body b k t = Inr t'" "length t' = length t"
      "samples t' = (samples t)[2 * k := interpolated ?c ?x 0, 2 * k + 1 := interpolated ?c ?x 1]"
      by blast
    have "samples t' ! (2 * i + j) = interpolated (samples b ! i) (samples b ! (i + 1)) j"
      if "i < Suc k" "j < 2" for i j
    proof (cases "i = k")
      case True
      from \<open>j < 2\<close> have "j = 0 \<or> j = 1" by arith
      then show ?thesis
        using True kt by (auto simp: t'(3))
    next
      case False
      with that have ik: "i < k" by simp
      with that have "2 * i + j \<noteq> 2 * k" "2 * i + j \<noteq> 2 * k + 1" by arith+
      then have "samples t' ! (2 * i + j) = samples t ! (2 * i + j)"
        by (simp add: t'(3))
      with inv ik that show ?thesis by simp
    qed
    with t' inv show "\<exists>t'. upsample_body b k t = Inr t' \<and> ?I (Suc k) t'"
      by simp
  qed
  then show ?thesis by blast
qed

lemma upsample_even:
  assumes len: "length b = 2 * n" and n: "2 \<le> n"
  shows "\<exists>out. upsample8kTo16k (Some b) = Inr out \<and> length out = 4 * n
     \<and> (\<forall>i<n - 1. \<forall>j<2. samples out ! (2 * i + j)
            = interpolated (samples b ! i) (samples b ! (i + 1)) j)
     \<and> samples out ! (2 * (n - 1)) = samples b ! (n - 1)
     \<and> samples out ! (2 * (n - 1) + 1) = samples b ! (n - 1)"
proof -
  let ?last = "samples b ! (n - 1)"
  have cnt: "(of_nat (length b) / of_nat bytesPerSample :: rat) = of_nat n"
    by (simp add: len bytesPerSample_def)
  have ge: "\<not> (of_nat n :: rat) < 2"
    using n by (metis of_nat_numeral of_nat_less_iff not_less)
  have bound: "(of_nat n - 1 :: rat) = of_nat (n - 1)"
    using n by (simp add: of_nat_diff)
  have alloc: "Buffer_alloc (of_nat n * of_nat upsamplingFactor * of_nat bytesPerSample)
      = replicate (4 * n) 0"
  proof -
    have "(of_nat n * of_nat upsamplingFactor * of_nat bytesPerSample :: rat) = of_nat (4 * n)"
      by (simp add: upsamplingFactor_def bytesPerSample_def)
    then show ?thesis by (simp only: Buffer_alloc_def floor_of_nat nat_int)
  qed
  have lastidx: "(of_nat (n - 1) * of_nat bytesPerSample :: rat) = of_nat (2 * (n - 1))"
    by (simp add: bytesPerSample_def)
  have nonempty: "(length b = 0) = False"
    using n len by simp
  have rd: "readInt16LE b (of_nat (2 * (n - 1))) = Inr ?last"
    using n len by (intro readInt16LE_sample) simp
  have unfold: "upsample8kTo16k (Some b)
      = bind_err (for_loop 0 (of_nat (n - 1)) (upsample_body b) (replicate (4 * n) 0))
          (\<lambda>ob. bind_err (repeat_last_body (of_nat n) ?last 0 ob)
                   (repeat_last_body (of_nat n) ?last 1))"
    by (simp only: upsample8kTo16k_def option.case nonempty if_False cnt Let_def ge alloc bound
        lastidx rd for_loop_two) (simp add: bind_err_def)
  from upsample_loop_even [OF len n, of "replicate (4 * n) 0"]
  obtain ob1 where ob1: "for_loop 0 (of_nat (n - 1)) (upsample_body b) (replicate (4 * n) 0) = Inr ob1"
      "length ob1 = 4 * n"
      "\<forall>i<n - 1. \<forall>j<2. samples ob1 ! (2 * i + j)
            = interpolated (samples b ! i) (samples b ! (i + 1)) j"
    by auto
  have v: "- 32768 \<le> ?last" "?last \<le> 32767"
    using n len int16_of_bytes_range by (simp_all add: nth_samples)
  have n1: "1 \<le> n" using n by simp
  from n ob1(2) have "2 * (n - 1) + 0 < length ob1 div 2" by simp
  from repeat_last_body_sample [OF n1 this v]
  obtain ob2 where ob2: "repeat_last_body (of_nat n) ?last 0 ob1 = Inr ob2" "length ob2 = 4 * n"
      "samples ob2 = (samples ob1)[2 * (n - 1) := ?last]"
    using ob1(2) by auto
  from n ob2(2) have "2 * (n - 1) + 1 < length ob2 div 2" by simp
  from repeat_last_body_sample [OF n1 this v]
  obtain ob3 where ob3: "repeat_last_body (of_nat n) ?last 1 ob2 = Inr ob3" "length ob3 = 4 * n"
      "samples ob3 = (samples ob2)[2 * (n - 1) + 1 := ?last]"
    using ob2(2) by auto
  have res: "upsample8kTo16k (Some b) = Inr ob3"
    unfolding unfold by (simp only: bind_err_def ob1 ob2 ob3 sum.case)
  have pairs: "samples ob3 ! (2 * i + j) = interpolated (samples b ! i) (samples b ! (i + 1)) j"
    if "i < n - 1" "j < 2" for i j
  proof -
    from that have "2 * i + j \<noteq> 2 * (n - 1)" "2 * i + j \<noteq> 2 * (n - 1) + 1" by arith+
    then have "samples ob3 ! (2 * i + j) = samples ob1 ! (2 * i + j)"
      by (simp add: ob3(3) ob2(3))
    with ob1(3) that show ?thesis by simp
  qed
  have l1: "samples ob3 ! (2 * (n - 1)) = ?last"
    using n ob1(2) by (simp add: ob3(3) ob2(3))
  have l2: "samples ob3 ! (2 * (n - 1) + 1) = ?last"
    using n ob1(2) by (simp add: ob3(3) ob2(3))
  show ?thesis
    using res ob3(2) pairs l1 l2 by blast
qed


lemma downsample_body_sample:
  assumes i: "3 * i < length b div 2" and ob: "i < length ob div 2"
  shows "\<exists>ob'. downsample_body b i ob = Inr ob' \<and> length ob' = length ob
           \<and> samples ob' = (samples ob)[i := samples b ! (3 * i)]"
proof -
  have o1: "(of_nat (i * downsamplingFactor) * of_nat bytesPerSample :: rat) = of_nat (2 * (3 * i))"
    by (simp add: bytesPerSample_def downsamplingFactor_def)
  have o2: "(of_nat i * of_nat bytesPerSample :: rat) = of_nat (2 * i)"
    by (simp add: bytesPerSample_def)
  have r: "readInt16LE b (of_nat (2 * (3 * i))) = Inr (samples b ! (3 * i))"
    using i by (rule readInt16LE_sample)
  have body: "downsample_body b i ob = writeInt16LE ob (samples b ! (3 * i)) (of_nat (2 * i))"
    unfolding downsample_body_def Let_def o1 o2 r by (simp add: bind_err_def)
  have v: "- 32768 \<le> samples b ! (3 * i)" "samples b ! (3 * i) \<le> 32767"
    using i int16_of_bytes_range by (simp_all add: nth_samples)
  show ?thesis
    unfolding body using writeInt16LE_sample [OF v ob] .
qed

lemma downsample_loop:
  assumes m: "3 * m \<le> length b div 2" and ob: "length ob div 2 = m"
  shows "\<exists>ob'. for_loop 0 (of_nat m) (downsample_body b) ob = Inr ob' \<and> length ob' = length ob
     \<and> (\<forall>i<m. samples ob' ! i = samples b ! (3 * i))"
proof -
  let ?I = "\<lambda>k t. length t = length ob \<and> (\<forall>i<k. samples t ! i = samples b ! (3 * i))"
  have "\<exists>t. for_loop 0 (of_nat m) (downsample_body b) ob = Inr t \<and> ?I m t"
  proof (rule for_loop_invariant [where I = ?I])
    show "?I 0 ob" by simp
    show "0 \<le> m" by simp
  next
    fix k t assume k: "k < m" and inv: "?I k t"
    from k m have kb: "3 * k < length b div 2" by simp
    from k inv ob have kt: "k < length t div 2" by simp
    from downsample_body_sample [OF kb kt]
    obtain t' where t': "downsample_body b k t = Inr t'" "length t' = length t"
      "samples t' = (samples t)[k := samples b ! (3 * k)]"
      by blast
    have "samples t' ! i = samples b ! (3 * i)" if "i < Suc k" for i
    proof (cases "i = k")
      case True
      then show ?thesis using kt by (simp add: t'(3))
    next
      case False
      with that inv show ?thesis by (simp add: t'(3))
    qed
    with t' inv show "\<exists>t'. downsample_body b k t = Inr t' \<and> ?I (Suc k) t'"
      by simp
  qed
  then show ?thesis by blast
qed

lemma downsample_general:
  assumes len: "6 \<le> length b"
  shows "\<exists>out. downsample24kTo8k (Some b) = Inr out \<and> length out = 2 * (length b div 6)
     \<and> (\<forall>i<length b div 6. samples out ! i = samples b ! (3 * i))"
proof -
  let ?m = "length b div 6"
  have nonempty: "(length b = 0) = False"
    using len by auto
  have "(3 :: rat) \<le> of_nat (length b) / 2"
  proof -
    have "(of_nat 6 :: rat) \<le> of_nat (length b)"
      using len by (simp only: of_nat_le_iff)
    then show ?thesis by simp
  qed
  then have ge: "((of_nat (length b) / of_nat bytesPerSample :: rat) < of_nat downsamplingFactor) = False"
    by (simp add: bytesPerSample_def downsamplingFactor_def)
  have "(of_nat (length b) / of_nat bytesPerSample / of_nat downsamplingFactor :: rat)
      = of_nat (length b) / of_nat 6"
    by (simp add: bytesPerSample_def downsamplingFactor_def)
  then have fl: "Math_floor (of_nat (length b) / of_nat bytesPerSample / of_nat downsamplingFactor)
      = int ?m"
    by (simp only: Math_floor_def floor_divide_of_nat_eq)
  have bound: "(of_int (int ?m) :: rat) = of_nat ?m"
    by simp
  have alloc: "Buffer_alloc (of_nat ?m * of_nat bytesPerSample) = replicate (2 * ?m) 0"
  proof -
    have "(of_nat ?m * of_nat bytesPerSample :: rat) = of_nat (2 * ?m)"
      by (simp add: bytesPerSample_def)
    then show ?thesis by (simp only: Buffer_alloc_def floor_of_nat nat_int)
  qed
  have unfold: "downsample24kTo8k (Some b)
      = for_loop 0 (of_nat ?m) (downsample_body b) (replicate (2 * ?m) 0)"
    by (simp only: downsample24kTo8k_def option.case nonempty if_False ge Let_def fl bound alloc)
  have m: "3 * ?m \<le> length b div 2" by arith
  have "length (replicate (2 * ?m) (0 :: byte)) div 2 = ?m" by simp
  from downsample_loop [OF m this] show ?thesis
    unfolding unfold by simp
qed

lemma downsample_small:
  assumes "length b < 6"
  shows "downsample24kTo8k (Some b) = Inr b"
proof (cases "length b = 0")
  case True
  then show ?thesis by (simp add: downsample24kTo8k_def Buffer_alloc_def)
next
  case False
  have "(of_nat (length b) :: rat) < of_nat 6"
    using assms by (simp only: of_nat_less_iff)
  then have "(of_nat (length b) / of_nat bytesPerSample :: rat) < of_nat downsamplingFactor"
    by (simp add: bytesPerSample_def downsamplingFactor_def)
  with False show ?thesis by (simp add: downsample24kTo8k_def Let_def)
qed

lemma upsample_small:
  assumes "length b < 4"
  shows "upsample8kTo16k (Some b) = Inr b"
proof (cases "length b = 0")
  case True
  then show ?thesis by (simp add: upsample8kTo16k_def Buffer_alloc_def)
next
  case False
  have "(of_nat (length b) :: rat) < of_nat 4"
    using assms by (simp only: of_nat_less_iff)
  then have "(of_nat (length b) / of_nat bytesPerSample :: rat) < 2"
    by (simp add: bytesPerSample_def)
  with False show ?thesis by (simp add: upsample8kTo16k_def Let_def)
qed

lemma samples_range:
  "i < length (samples buf) \<Longrightarrow> - 32768 \<le> samples buf ! i \<and> samples buf ! i \<le> 32767"
  using int16_of_bytes_range by (simp add: nth_samples length_samples)

lemma for_loop_raises:
  assumes "I i s" and "i \<le> m" and bound: "of_nat m < bound"
    and step: "\<And>k t. i \<le> k \<Longrightarrow> k < m \<Longrightarrow> I k t \<Longrightarrow> \<exists>t'. body k t = Inr t' \<and> I (Suc k) t'"
    and fail: "\<And>t. I m t \<Longrightarrow> body m t = Inl e"
  shows "for_loop i bound body s = Inl e"
  using assms(1,2,4)
proof (induction "m - i" arbitrary: i s)
  case 0
  then have "i = m" by simp
  with 0 bound fail show ?case by (simp add: for_loop.simps [of m])
next
  case (Suc d)
  then have lt: "i < m" by simp
  then have "(of_nat i :: rat) < of_nat m" by (simp only: of_nat_less_iff)
  with bound have ib: "of_nat i < bound" by simp
  from Suc.prems(3) [OF le_refl lt Suc.prems(1)]
  obtain t' where t': "body i s = Inr t'" "I (Suc i) t'" by blast
  have "for_loop (Suc i) bound body t' = Inl e"
  proof (rule Suc.hyps(1))
    show "d = m - Suc i" using Suc.hyps(2) by simp
    show "I (Suc i) t'" by (rule t')
    show "Suc i \<le> m" using lt by simp
    show "\<exists>t'. body k t = Inr t' \<and> I (Suc k) t'" if "Suc i \<le> k" "k < m" "I k t" for k t
      using that Suc.prems(3) [of k t] by simp
  qed
  then show ?case
    using ib t' by (simp add: for_loop.simps [of i])
qed

lemma upsample_body_raises:
  assumes len: "length b = 2 * k + 1" and k: "1 \<le> k"
  shows "upsample_body b (k - 1) ob = Inl RangeError"
proof -
  have o1: "(of_nat (k - 1) * of_nat bytesPerSample :: rat) = of_nat (2 * (k - 1))"
    by (simp add: bytesPerSample_def)
  have "(of_nat (k - 1) + 1 :: rat) = of_nat k"
    using k by (simp add: of_nat_diff)
  then have o2: "((of_nat (k - 1) + 1) * of_nat bytesPerSample :: rat) = of_nat (2 * k)"
    by (simp add: bytesPerSample_def)
  have r1: "readInt16LE b (of_nat (2 * (k - 1))) = Inr (samples b ! (k - 1))"
    using len k by (intro readInt16LE_sample) simp
  have r2: "readInt16LE b (of_nat (2 * k)) = Inl RangeError"
    unfolding readInt16LE_def using len by (simp del: of_nat_mult)
  show ?thesis
    unfolding upsample_body_def o1 o2 r1 r2 by (simp add: bind_err_def)
qed

lemma upsample_raises_on_odd_length:
  assumes len: "length b = 2 * k + 1" and k: "2 \<le> k"
  shows "upsample8kTo16k (Some b) = Inl RangeError"
proof -
  let ?cnt = "of_nat (length b) / of_nat bytesPerSample :: rat"
  let ?ob = "Buffer_alloc (?cnt * of_nat upsamplingFactor * of_nat bytesPerSample)"
  have cnt: "?cnt = of_nat k + 1 / 2"
    by (simp add: len bytesPerSample_def add_divide_distrib)
  have nonempty: "(length b = 0) = False"
    using len by simp
  have "(2 :: rat) \<le> of_nat k"
    using k by (metis of_nat_numeral of_nat_le_iff)
  then have ge: "(?cnt < 2) = False"
    unfolding cnt by simp
  have "(?cnt * of_nat upsamplingFactor * of_nat bytesPerSample) = of_nat (4 * k + 2)"
    unfolding cnt by (simp add: upsamplingFactor_def bytesPerSample_def algebra_simps)
  then have alloc: "?ob = replicate (4 * k + 2) 0"
    by (simp only: Buffer_alloc_def floor_of_nat nat_int)
  have "(of_nat (k - 1) :: rat) = of_nat k - 1"
    using k by (simp add: of_nat_diff)
  then have bound: "(of_nat (k - 1) :: rat) < ?cnt - 1"
    unfolding cnt by simp
  have loop: "for_loop 0 (?cnt - 1) (upsample_body b) ?ob = Inl RangeError"
  proof (rule for_loop_raises [where I = "\<lambda>j t. length t = 4 * k + 2" and m = "k - 1"])
    show "length ?ob = 4 * k + 2" unfolding alloc by simp
    show "0 \<le> k - 1" by simp
    show "of_nat (k - 1) < ?cnt - 1" by (rule bound)
  next
    fix j and t :: buffer assume j: "j < k - 1" and t: "length t = 4 * k + 2"
    from j len have jb: "j + 1 < length b div 2" by simp
    from j t have jt: "2 * j + 1 < length t div 2" by simp
    from upsample_body_sample [OF jb jt] t
    show "\<exists>t'. upsample_body b j t = Inr t' \<and> length t' = 4 * k + 2"
      by auto
  next
    fix t :: buffer
    from k have "1 \<le> k" by simp
    with len show "upsample_body b (k - 1) t = Inl RangeError"
      by (rule upsample_body_raises)
  qed
  show ?thesis
    by (simp only: upsample8kTo16k_def option.case nonempty if_False Let_def ge loop bind_err_def
        sum.case)
qed

lemma downsample_returns: "\<exists>out. downsample24kTo8k arg = Inr out"
proof (cases arg)
  case None
  then show ?thesis by (simp add: downsample24kTo8k_def)
next
  case (Some b)
  show ?thesis
  proof (cases "length b < 6")
    case True
    then show ?thesis using downsample_small [of b] Some by simp
  next
    case False
    then have "6 \<le> length b" by simp
    from downsample_general [OF this] Some show ?thesis by blast
  qed
qed

section \<open>The resampler claims\<close>

text \<open>
  Claim C1. \<open>upsample8kTo16k\<close> of a null or empty buffer is the empty buffer; a buffer of
  fewer than 4 bytes (fewer than 2 samples) is returned as it is; for a buffer of even
  length holding at least 2 samples the call returns a buffer of exactly twice the byte
  length.
\<close>

theorem upsample_lengths:
  "upsample8kTo16k None = Inr [] \<and> upsample8kTo16k (Some []) = Inr []
   \<and> (length b < 4 \<longrightarrow> upsample8kTo16k (Some b) = Inr b)
   \<and> (even (length b) \<and> 4 \<le> length b \<longrightarrow>
        (\<exists>out. upsample8kTo16k (Some b) = Inr out \<and> length out = 2 * length b))"
proof -
  have empty: "upsample8kTo16k None = Inr []" "upsample8kTo16k (Some []) = Inr []"
    by (simp_all add: upsample8kTo16k_def Buffer_alloc_def)
  have long: "\<exists>out. upsample8kTo16k (Some b) = Inr out \<and> length out = 2 * length b"
    if "even (length b)" "4 \<le> length b"
  proof -
    from that obtain n where n: "length b = 2 * n" "2 \<le> n"
      by (auto elim: evenE)
    from upsample_even [OF n] show ?thesis
      using n by auto
  qed
  from empty long upsample_small [of b] show ?thesis
    by blast
qed

theorem upsample_lengths_witness:
  "upsample8kTo16k (Some [7, 0]) = Inr [7, 0]
   \<and> (\<exists>out. upsample8kTo16k (Some [1, 0, 3, 0]) = Inr out \<and> length out = 8)"
  using upsample_lengths [of "[7, 0]"] upsample_lengths [of "[1, 0, 3, 0]"]
  by simp

text \<open>
  Claim C2. For a buffer of even length with \<open>n \<ge> 2\<close> samples \<open>s\<close>, the call returns, and
  for every \<open>i < n - 1\<close> and \<open>j < 2\<close> output sample \<open>2i + j\<close> is
  \<open>Math.round(s[i] + (s[i+1] - s[i]) * j/2)\<close> clamped to \<open>[-32768, 32767]\<close>; the last input
  sample is at output positions \<open>2(n-1)\<close> and \<open>2(n-1) + 1\<close>; a buffer of two equal samples
  \<open>[x, x]\<close> gives four samples \<open>x\<close>.
\<close>

theorem upsample_interpolates:
  assumes "even (length b)" and "4 \<le> length b"
  shows "\<exists>out. upsample8kTo16k (Some b) = Inr out
     \<and> length (samples out) = 2 * length (samples b)
     \<and> (\<forall>i<length (samples b) - 1. \<forall>j<2. samples out ! (2 * i + j) =
           max (- 32768) (min 32767 (Math_round
             (of_int (samples b ! i)
              + (of_int (samples b ! (i + 1)) - of_int (samples b ! i)) * (of_nat j / 2)))))
     \<and> samples out ! (2 * (length (samples b) - 1)) = samples b ! (length (samples b) - 1)
     \<and> samples out ! (2 * (length (samples b) - 1) + 1) = samples b ! (length (samples b) - 1)
     \<and> (\<forall>x. samples b = [x, x] \<longrightarrow> samples out = [x, x, x, x])"
proof -
  from assms obtain n where n: "length b = 2 * n" "2 \<le> n"
    by (auto elim: evenE)
  then have ln: "length (samples b) = n" by simp
  from upsample_even [OF n]
  obtain out where out: "upsample8kTo16k (Some b) = Inr out" "length out = 4 * n"
      "\<forall>i<n - 1. \<forall>j<2. samples out ! (2 * i + j)
            = interpolated (samples b ! i) (samples b ! (i + 1)) j"
      "samples out ! (2 * (n - 1)) = samples b ! (n - 1)"
      "samples out ! (2 * (n - 1) + 1) = samples b ! (n - 1)"
    by blast
  have lo: "length (samples out) = 2 * n"
    using out(2) by simp
  have same: "samples out = [x, x, x, x]" if x: "samples b = [x, x]" for x
  proof -
    from x ln have n2: "n = 2" by simp
    have "0 < length (samples b)"
      by (simp only: x) simp
    from samples_range [OF this]
    have r: "- 32768 \<le> x" "x \<le> 32767"
      by (simp_all only: x nth_Cons_0)
    have "samples out ! (2 * 0 + 0) = interpolated x x 0" "samples out ! (2 * 0 + 1) = interpolated x x 1"
      using out(3) n2 x by simp_all
    then have a: "samples out ! 0 = x" "samples out ! 1 = x"
      using interpolated_same [OF r] by simp_all
    have b: "samples out ! 2 = x" "samples out ! 3 = x"
      using out(4,5) n2 x by simp_all
    have l4: "length (samples out) = 4" using lo n2 by simp
    show ?thesis
    proof (rule nth_equalityI)
      show "length (samples out) = length [x, x, x, x]"
        by (simp only: l4) simp
    next
      fix i assume "i < length (samples out)"
      then have "i < 4" by (simp only: l4)
      then have "i = 0 \<or> i = 1 \<or> i = 2 \<or> i = 3" by arith
      then show "samples out ! i = [x, x, x, x] ! i"
        using a b by auto
    qed
  qed
  show ?thesis
    using out(1) lo out(3,4,5) same unfolding ln interpolated_def by blast
qed

theorem upsample_interpolates_witness:
  "(\<exists>out. upsample8kTo16k (Some [0, 128, 255, 127, 254, 255]) = Inr out
     \<and> samples out ! 1 = 0 \<and> samples out ! 3 = 16383 \<and> samples out ! 5 = - 2)
   \<and> (\<exists>out. upsample8kTo16k (Some [5, 0, 5, 0]) = Inr out \<and> samples out = [5, 5, 5, 5])"
proof -
  have t: "samples [5, 0, 5, 0 :: byte] = [5, 5]"
    by (simp add: samples_def int16_of_bytes_def upt_rec)
  have same: "\<exists>out. upsample8kTo16k (Some [5, 0, 5, 0]) = Inr out \<and> samples out = [5, 5, 5, 5]"
    using upsample_interpolates [of "[5, 0, 5, 0]"] unfolding t by auto
  have s: "samples [0, 128, 255, 127, 254, 255 :: byte] = [- 32768, 32767, - 2]"
    by (simp add: samples_def int16_of_bytes_def upt_rec)
  have m1: "Math_round (- (1 / 2)) = 0"
    unfolding Math_round_def by (rule floor_unique) simp_all
  have m2: "Math_round (32765 / 2) = 16383"
    unfolding Math_round_def by (rule floor_unique) simp_all
  from upsample_interpolates [of "[0, 128, 255, 127, 254, 255]"]
  obtain out where out: "upsample8kTo16k (Some [0, 128, 255, 127, 254, 255]) = Inr out"
      "\<forall>i<2. \<forall>j<2. samples out ! (2 * i + j) =
           max (- 32768) (min 32767 (Math_round
             (of_int ([- 32768, 32767, - 2] ! i)
              + (of_int ([- 32768, 32767, - 2] ! (i + 1)) - of_int ([- 32768, 32767, - 2 :: int] ! i))
                * (of_nat j / 2))))"
      "samples out ! 5 = - 2"
    unfolding s by auto
  have "samples out ! 1 = 0"
    using out(2) [rule_format, of 0 1] m1 by simp
  moreover have "samples out ! 3 = 16383"
    using out(2) [rule_format, of 1 1] m2 by simp
  ultimately show ?thesis using out(1,3) same by simp
qed

text \<open>
  Claim C3. \<open>downsample24kTo8k\<close> of a null or empty buffer is the empty buffer; a buffer
  of fewer than 6 bytes (fewer than 3 samples) is returned as it is; for a buffer of even
  length with \<open>n \<ge> 3\<close> samples the call returns \<open>n div 3\<close> samples, output sample \<open>i\<close>
  being input sample \<open>3i\<close>.
\<close>

theorem downsample_decimates:
  "downsample24kTo8k None = Inr [] \<and> downsample24kTo8k (Some []) = Inr []
   \<and> (length b < 6 \<longrightarrow> downsample24kTo8k (Some b) = Inr b)
   \<and> (even (length b) \<and> 6 \<le> length b \<longrightarrow>
        (\<exists>out. downsample24kTo8k (Some b) = Inr out
           \<and> length (samples out) = length (samples b) div 3
           \<and> length out = 2 * (length (samples b) div 3)
           \<and> (\<forall>i<length (samples b) div 3. samples out ! i = samples b ! (i * 3))))"
proof -
  have empty: "downsample24kTo8k None = Inr []" "downsample24kTo8k (Some []) = Inr []"
    by (simp_all add: downsample24kTo8k_def Buffer_alloc_def)
  have long: "\<exists>out. downsample24kTo8k (Some b) = Inr out
           \<and> length (samples out) = length (samples b) div 3
           \<and> length out = 2 * (length (samples b) div 3)
           \<and> (\<forall>i<length (samples b) div 3. samples out ! i = samples b ! (i * 3))"
    if "even (length b)" "6 \<le> length b"
  proof -
    have d: "length (samples b) div 3 = length b div 6"
      by (simp add: div_mult2_eq)
    from downsample_general [OF that(2)] show ?thesis
      unfolding d by (auto simp: mult.commute)
  qed
  from empty long downsample_small [of b] show ?thesis
    by blast
qed

theorem downsample_decimates_witness:
  "downsample24kTo8k (Some [1, 0, 2, 0, 3]) = Inr [1, 0, 2, 0, 3]
   \<and> (\<exists>out. downsample24kTo8k (Some [1, 0, 2, 0, 3, 0, 4, 0, 5, 0, 6, 0, 7, 0]) = Inr out
         \<and> length out = 4 \<and> samples out ! 0 = 1 \<and> samples out ! 1 = 4)"
proof -
  have s: "samples [1, 0, 2, 0, 3, 0, 4, 0, 5, 0, 6, 0, 7, 0 :: byte] = [1, 2, 3, 4, 5, 6, 7]"
    by (simp add: samples_def int16_of_bytes_def upt_rec)
  have small: "downsample24kTo8k (Some [1, 0, 2, 0, 3]) = Inr [1, 0, 2, 0, 3]"
    using downsample_decimates [of "[1, 0, 2, 0, 3]"] by simp
  from downsample_decimates [of "[1, 0, 2, 0, 3, 0, 4, 0, 5, 0, 6, 0, 7, 0]"]
  obtain out where out: "downsample24kTo8k (Some [1, 0, 2, 0, 3, 0, 4, 0, 5, 0, 6, 0, 7, 0]) = Inr out"
      "length out = 4" "\<forall>i<2. samples out ! i = [1, 2, 3, 4, 5, 6, 7] ! (i * 3)"
    unfolding s by auto
  have "samples out ! 0 = 1" using out(3) [rule_format, of 0] by simp
  moreover have "samples out ! 1 = 4" using out(3) [rule_format, of 1] by simp
  ultimately show ?thesis using small out(1,2) by simp
qed

text \<open>
  Claim C10. For a buffer of even length with at least 2 samples, output sample \<open>2i\<close> of
  \<open>upsample8kTo16k\<close> is input sample \<open>i\<close>, for every \<open>i\<close>: the even positions of the
  output are the input.
\<close>

theorem upsample_keeps_input_samples:
  assumes "even (length b)" and "4 \<le> length b"
  shows "\<exists>out. upsample8kTo16k (Some b) = Inr out
     \<and> length (samples out) = 2 * length (samples b)
     \<and> (\<forall>i<length (samples b). samples out ! (2 * i) = samples b ! i)
     \<and> map (\<lambda>i. samples out ! (2 * i)) [0..<length (samples b)] = samples b"
proof -
  from assms obtain n where n: "length b = 2 * n" "2 \<le> n"
    by (auto elim: evenE)
  then have ln: "length (samples b) = n" by simp
  from upsample_even [OF n]
  obtain out where out: "upsample8kTo16k (Some b) = Inr out" "length out = 4 * n"
      "\<forall>i<n - 1. \<forall>j<2. samples out ! (2 * i + j)
            = interpolated (samples b ! i) (samples b ! (i + 1)) j"
      "samples out ! (2 * (n - 1)) = samples b ! (n - 1)"
    by blast
  have lo: "length (samples out) = 2 * n"
    using out(2) by simp
  have pt: "samples out ! (2 * i) = samples b ! i" if "i < n" for i
  proof (cases "i = n - 1")
    case True
    with out(4) show ?thesis by simp
  next
    case False
    with that have i: "i < n - 1" by simp
    have "i < length (samples b)"
      using that by (simp only: ln)
    from samples_range [OF this]
    have r: "- 32768 \<le> samples b ! i" "samples b ! i \<le> 32767"
      by (rule conjunct1, rule conjunct2)
    have "samples out ! (2 * i + 0) = interpolated (samples b ! i) (samples b ! (i + 1)) 0"
      using out(3) [rule_format, of i 0] i by simp
    then show ?thesis using interpolated_0 [OF r] by simp
  qed
  have "map (\<lambda>i. samples out ! (2 * i)) [0..<n] = samples b"
    by (rule nth_equalityI) (simp_all add: ln pt del: length_samples)
  with out(1) lo pt show ?thesis
    unfolding ln by blast
qed

theorem upsample_keeps_input_samples_witness:
  "\<exists>out. upsample8kTo16k (Some [0, 128, 255, 127, 254, 255]) = Inr out
     \<and> samples out ! 0 = - 32768 \<and> samples out ! 2 = 32767 \<and> samples out ! 4 = - 2"
proof -
  have s: "samples [0, 128, 255, 127, 254, 255 :: byte] = [- 32768, 32767, - 2]"
    by (simp add: samples_def int16_of_bytes_def upt_rec)
  show ?thesis
    using upsample_keeps_input_samples [of "[0, 128, 255, 127, 254, 255]"] unfolding s by auto
qed

text \<open>
  Claim C4 says that both resamplers return without raising on every buffer, odd lengths
  included. \<open>downsample24kTo8k\<close> does. \<open>upsample8kTo16k\<close> raises a \<open>RangeError\<close> on
  every buffer of odd length of at least 5 bytes: with \<open>2k + 1\<close> bytes the outer loop
  runs up to \<open>i = k - 1\<close> and reads the next sample at offset \<open>2k\<close>, whose second byte
  does not exist. The \<open>data\<close> handler of the request passes the exception on.
\<close>

theorem upsample_odd_length_throws:
  "(odd (length b) \<and> 5 \<le> length b \<longrightarrow>
      upsample8kTo16k (Some b) = Inl RangeError \<and> req_on_data b st = Inl RangeError)
   \<and> (\<exists>out. downsample24kTo8k (Some b) = Inr out)"
proof -
  have "upsample8kTo16k (Some b) = Inl RangeError" if "odd (length b)" "5 \<le> length b"
  proof -
    from that obtain k where "length b = 2 * k + 1" "2 \<le> k"
      by (auto elim: oddE)
    then show ?thesis by (rule upsample_raises_on_odd_length)
  qed
  then show ?thesis
    using downsample_returns [of "Some b"] by (simp add: req_on_data_def bind_err_def)
qed

theorem upsample_odd_length_throws_witness:
  "upsample8kTo16k (Some [0, 0, 0, 0, 0]) = Inl RangeError"
  using upsample_odd_length_throws [of "[0, 0, 0, 0, 0]"] by simp

section \<open>The stream controller and the model name: auxiliary facts\<close>

lemma sent_frames_append: "sent_frames (xs @ ys) = sent_frames xs @ sent_frames ys"
  by (induction xs rule: sent_frames.induct) simp_all

lemma written_frames_append: "written_frames (xs @ ys) = written_frames xs @ written_frames ys"
  by (induction xs rule: written_frames.induct) simp_all

lemma ws_on_message_unrecognized:
  "unrecognized parsed \<Longrightarrow>
     ws_on_message Buffer_from parsed st =
       (case parsed of Inl e \<Rightarrow> st\<lparr>effects := effects st @ [ConsoleError]\<rparr> | Inr m \<Rightarrow> st)"
  by (cases parsed) (simp_all add: unrecognized_def ws_on_message_def bind_err_def Let_def)

lemma ws_on_message_effects_irrelevant:
  "outputAudioBuffer (ws_on_message Buffer_from parsed (st\<lparr>effects := effs\<rparr>))
     = outputAudioBuffer (ws_on_message Buffer_from parsed st)"
  by (simp add: ws_on_message_def bind_err_def Let_def split: sum.splits)

lemma ws_on_message_keeps_session:
  "session (ws_on_message Buffer_from parsed st) = session st
   \<and> ws (ws_on_message Buffer_from parsed st) = ws st
   \<and> listening (ws_on_message Buffer_from parsed st) = listening st
   \<and> running (ws_on_message Buffer_from parsed st) = running st
   \<and> inputAudioBuffer (ws_on_message Buffer_from parsed st) = inputAudioBuffer st"
  by (simp add: ws_on_message_def bind_err_def Let_def split: sum.splits)

lemma isWhiteSpace_lowerChar [simp]: "isWhiteSpace (lowerChar c) = isWhiteSpace c"
proof -
  let ?n = "of_char c :: nat"
  have lt: "?n < 256" by (rule nat_of_char_less_256)
  show ?thesis
  proof (cases "(65 \<le> ?n \<and> ?n \<le> 90) \<or> (192 \<le> ?n \<and> ?n \<le> 222 \<and> ?n \<noteq> 215)")
    case True
    then have "(?n + 32) mod 256 = ?n + 32" by auto
    then have "(of_char (char_of (?n + 32)) :: nat) = ?n + 32"
      by (simp only: of_char_of)
    with True show ?thesis
      by (auto simp: isWhiteSpace_def lowerChar_def Let_def)
  next
    case False
    then have "lowerChar c = c" by (simp only: lowerChar_def Let_def if_False)
    then show ?thesis by simp
  qed
qed

lemma toLowerCase_trim: "toLowerCase (trim s) = trim (toLowerCase s)"
proof -
  have "isWhiteSpace \<circ> lowerChar = isWhiteSpace"
    by (rule ext) (simp add: isWhiteSpace_lowerChar)
  then show ?thesis
    by (simp add: toLowerCase_def trim_def rev_map dropWhile_map)
qed

lemma trim_eq_Nil: "trim s = [] \<longleftrightarrow> (\<forall>c\<in>set s. isWhiteSpace c)"
proof
  assume "trim s = []"
  then have all: "\<forall>c\<in>set (dropWhile isWhiteSpace s). isWhiteSpace c"
    by (simp add: trim_def dropWhile_eq_Nil_conv)
  have "dropWhile isWhiteSpace s = []"
  proof (rule ccontr)
    assume ne: "dropWhile isWhiteSpace s \<noteq> []"
    then have "\<not> isWhiteSpace (hd (dropWhile isWhiteSpace s))" by (rule hd_dropWhile)
    moreover have "hd (dropWhile isWhiteSpace s) \<in> set (dropWhile isWhiteSpace s)"
      using ne by (rule hd_in_set)
    ultimately show False using all by blast
  qed
  then show "\<forall>c\<in>set s. isWhiteSpace c" by (simp add: dropWhile_eq_Nil_conv)
next
  assume "\<forall>c\<in>set s. isWhiteSpace c"
  then have d: "dropWhile isWhiteSpace s = []" by (simp add: dropWhile_eq_Nil_conv)
  show "trim s = []" unfolding trim_def d by simp
qed

lemma startsWith_snoc:
  assumes "p \<noteq> []" and "last p \<noteq> c"
  shows "startsWith (s @ [c]) p = startsWith s p"
proof (cases "length p \<le> length s")
  case True
  then show ?thesis by (simp add: startsWith_def)
next
  case False
  then have a: "take (length p) (s @ [c]) = s @ [c]" "take (length p) s = s" by simp_all
  have "s @ [c] \<noteq> p" using assms by auto
  moreover have "s \<noteq> p" using False by auto
  ultimately show ?thesis unfolding startsWith_def a by simp
qed

lemma includes_str_snoc:
  assumes "p \<noteq> []" and "last p \<noteq> c"
  shows "includes_str (s @ [c]) p = includes_str s p"
proof (induction s)
  case Nil
  have "startsWith ([] @ [c]) p = startsWith [] p"
    using assms by (rule startsWith_snoc)
  then show ?case using assms by (simp add: startsWith_def)
next
  case (Cons x s)
  have "startsWith ((x # s) @ [c]) p = startsWith (x # s) p"
    using assms by (rule startsWith_snoc)
  with Cons show ?case by simp
qed

lemma includes_str_Cons:
  assumes "p \<noteq> []" and "hd p \<noteq> c"
  shows "includes_str (c # s) p = includes_str s p"
proof -
  have "take (length p) (c # s) \<noteq> p"
    using assms by (cases p) auto
  then show ?thesis by (simp add: startsWith_def)
qed

lemma includes_str_dropWhile:
  assumes "p \<noteq> []" and "\<not> isWhiteSpace (hd p)"
  shows "includes_str (dropWhile isWhiteSpace s) p = includes_str s p"
proof (induction s)
  case Nil
  show ?case by simp
next
  case (Cons x s)
  show ?case
  proof (cases "isWhiteSpace x")
    case True
    with assms have "hd p \<noteq> x" by auto
    with assms(1) have "includes_str (x # s) p = includes_str s p"
      by (rule includes_str_Cons)
    with True Cons show ?thesis by simp
  next
    case False
    then show ?thesis by simp
  qed
qed

lemma includes_str_rev_dropWhile:
  assumes "p \<noteq> []" and "\<not> isWhiteSpace (last p)"
  shows "includes_str (rev (dropWhile isWhiteSpace (rev s))) p = includes_str s p"
proof (induction s rule: rev_induct)
  case Nil
  show ?case by simp
next
  case (snoc x s)
  show ?case
  proof (cases "isWhiteSpace x")
    case True
    with assms have "last p \<noteq> x" by auto
    with assms(1) have "includes_str (s @ [x]) p = includes_str s p"
      by (rule includes_str_snoc)
    with True snoc show ?thesis by simp
  next
    case False
    then show ?thesis by simp
  qed
qed

lemma includes_str_trim:
  assumes "p \<noteq> []" and "\<not> isWhiteSpace (hd p)" and "\<not> isWhiteSpace (last p)"
  shows "includes_str (trim s) p = includes_str s p"
  unfolding trim_def
  by (simp only: includes_str_rev_dropWhile [OF assms(1,3)] includes_str_dropWhile [OF assms(1,2)])

lemma includes_flash_live:
  "includes_str (toLowerCase (trim s)) ''flash-live'' = includes_str (toLowerCase s) ''flash-live''"
  unfolding toLowerCase_trim
  by (rule includes_str_trim) (simp_all add: isWhiteSpace_def)

lemma includes_native_audio:
  "includes_str (toLowerCase (trim s)) ''native-audio'' = includes_str (toLowerCase s) ''native-audio''"
  unfolding toLowerCase_trim
  by (rule includes_str_trim) (simp_all add: isWhiteSpace_def)

lemma sdk_step_keeps_timers:
  assumes "session st" and "ws st = None" and "step Buffer_from ev st = Inr st'"
  shows "session st' \<and> ws st' = None \<and> running st' = running st
     \<and> listening st' = listening st
     \<and> (\<exists>new. effects st' = effects st @ new
           \<and> (\<forall>t. ClearInterval t \<notin> set new) \<and> ResEnd \<notin> set new)"
proof (cases ev)
  case (InputTick send_throws)
  with assms show ?thesis
    by (auto simp: step_def inputAudioBuffer_tick_def Let_def split: if_splits)
next
  case OutputTick
  with assms show ?thesis
    by (auto simp: step_def outputAudioBuffer_tick_def Let_def split: if_splits)
next
  case (ReqData chunk)
  with assms show ?thesis
    by (auto simp: step_def req_on_data_def bind_err_def split: sum.splits if_splits)
next
  case ReqEnd
  with assms show ?thesis
    by (auto simp: step_def req_on_end_def close_transport_def Let_def split: if_splits)
next
  case ReqError
  with assms show ?thesis
    by (auto simp: step_def req_on_error_def close_transport_def Let_def split: if_splits)
qed (use assms in \<open>auto simp: step_def split: if_splits\<close>)

lemma sdk_run_keeps_timers:
  assumes "session st" and "ws st = None" and "run Buffer_from evs st = Inr st'"
  shows "running st' = running st
     \<and> (\<exists>new. effects st' = effects st @ new
           \<and> (\<forall>t. ClearInterval t \<notin> set new) \<and> ResEnd \<notin> set new)"
  using assms
proof (induction evs arbitrary: st)
  case Nil
  then show ?case by simp
next
  case (Cons ev evs)
  from Cons.prems(3) obtain st1 where st1: "step Buffer_from ev st = Inr st1"
      "run Buffer_from evs st1 = Inr st'"
    by (auto simp: bind_err_def split: sum.splits)
  from sdk_step_keeps_timers [OF Cons.prems(1,2) st1(1)]
  obtain new1 where s1: "session st1" "ws st1 = None" "running st1 = running st"
      "effects st1 = effects st @ new1" "\<forall>t. ClearInterval t \<notin> set new1" "ResEnd \<notin> set new1"
    by blast
  from Cons.IH [OF s1(1,2) st1(2)]
  obtain new2 where s2: "running st' = running st1"
      "effects st' = effects st1 @ new2" "\<forall>t. ClearInterval t \<notin> set new2" "ResEnd \<notin> set new2"
    by blast
  have "effects st' = effects st @ (new1 @ new2)"
    using s1(4) s2(2) by simp
  moreover have "\<forall>t. ClearInterval t \<notin> set (new1 @ new2)" "ResEnd \<notin> set (new1 @ new2)"
    using s1(5,6) s2(3,4) by simp_all
  ultimately show ?case
    using s1(3) s2(1) by metis
qed

lemma request_end_on_sdk_transport:
  "run Buffer_from_none [ReqEnd, SdkClose] (handleAudioStream False Connected False None)
   = Inr \<lparr>session = True, ws = None, inputAudioBuffer = [], outputAudioBuffer = [],
          listening = True,
          running = {inputAudioBufferInterval, outputAudioBufferInterval},
          effects = [SessionSendRealtimeInput (replicate 3200 0) Returned,
                     SetInterval inputAudioBufferInterval 100,
                     SetInterval outputAudioBufferInterval 20,
                     SessionClose]\<rparr>"
  by (simp add: step_def handleAudioStream_def establish_def request_start_def req_on_end_def close_transport_def bind_err_def
      Let_def Buffer_alloc_def INTERVAL_MS_def)

lemma ws_error_then_close_clears_twice:
  "run Buffer_from_none [WsErrorEvent, WsCloseEvent] (handleAudioStream True Connected False None)
   = Inr \<lparr>session = False, ws = Some CLOSED, inputAudioBuffer = [], outputAudioBuffer = [],
          listening = True, running = {},
          effects = [SetInterval inputAudioBufferInterval 100,
                     SetInterval outputAudioBufferInterval 20,
                     ConsoleError,
                     ClearInterval inputAudioBufferInterval,
                     ClearInterval outputAudioBufferInterval, ResEnd,
                     ClearInterval inputAudioBufferInterval,
                     ClearInterval outputAudioBufferInterval, ResEnd]\<rparr>"
  by (simp add: step_def handleAudioStream_def establish_def request_start_def ws_on_error_def ws_on_close_def clearInterval_def
      res_end_def bind_err_def Let_def Buffer_alloc_def INTERVAL_MS_def)

lemma request_end_on_raw_socket:
  "run Buffer_from_none [ReqEnd, WsCloseEvent] (handleAudioStream True Connected False None)
   = Inr \<lparr>session = False, ws = Some CLOSED, inputAudioBuffer = [], outputAudioBuffer = [],
          listening = True, running = {},
          effects = [SetInterval inputAudioBufferInterval 100,
                     SetInterval outputAudioBufferInterval 20,
                     WsClose,
                     ClearInterval inputAudioBufferInterval,
                     ClearInterval outputAudioBufferInterval, ResEnd]\<rparr>"
  by (simp add: step_def handleAudioStream_def establish_def request_start_def req_on_end_def close_transport_def ws_on_close_def
      clearInterval_def res_end_def bind_err_def Let_def Buffer_alloc_def INTERVAL_MS_def)

lemma sent_frames_logs: "sent_frames (replicate k ConsoleError) = []"
  by (induction k) simp_all

lemma written_frames_logs: "written_frames (replicate k ConsoleError) = []"
  by (induction k) simp_all

lemma unregistered_request_only_logs:
  assumes "\<not> listening st"
  shows "run Buffer_from evs st
     = Inr (st\<lparr>effects := effects st @ replicate (count_list evs SdkError) ConsoleError\<rparr>)"
  using assms
proof (induction evs arbitrary: st)
  case Nil
  then show ?case by simp
next
  case (Cons ev evs)
  show ?case
  proof (cases "ev = SdkError")
    case True
    let ?st1 = "st\<lparr>effects := effects st @ [ConsoleError]\<rparr>"
    have s: "step Buffer_from ev st = Inr ?st1"
      using True by (simp add: step_def)
    have "\<not> listening ?st1" using Cons.prems by simp
    from Cons.IH [OF this] have "run Buffer_from evs ?st1
        = Inr (st\<lparr>effects := effects st @ ConsoleError
                 # replicate (count_list evs SdkError) ConsoleError\<rparr>)"
      by simp
    then show ?thesis using True s by (simp add: bind_err_def)
  next
    case False
    have "step Buffer_from ev st = Inr st"
      using False Cons.prems by (cases ev) (simp_all add: step_def)
    then show ?thesis
      using False Cons.IH [OF Cons.prems] by (simp add: bind_err_def)
  qed
qed

section \<open>The controller and configuration claims\<close>

text \<open>
  Claim C5, as amended. The uplink timer is set with 100 ms and frames of 3200 bytes, the
  downlink timer with the configured interval (20 ms by default) and frames of 320 bytes.
  On a tick, a queue holding at least one frame loses exactly its first frame and keeps
  the rest, and a queue holding less is left as it is, with nothing emitted. A tick emits
  at most one frame. The downlink frame is always written to the response, so the frames
  written so far followed by the queue are the same bytes in the same order before and
  after the tick. The uplink frame is passed to the transport's send call when there is
  an SDK session or the raw WebSocket is open; when that call returns, the frames sent so
  far followed by the queue are the same bytes in the same order before and after the
  tick. When the call raises, the error is logged, and when the raw WebSocket is not open
  no call of any kind is made: in both cases the frame removed from the queue is lost.
\<close>

theorem accumulator_tick:
  "(\<exists>new. effects (inputAudioBuffer_tick send_throws st) = effects st @ new
         \<and> sent_frames new =
             (if 3200 \<le> length (inputAudioBuffer st) \<and> (session st \<or> ws st = Some OPEN)
                 \<and> \<not> send_throws
              then [take 3200 (inputAudioBuffer st)] else [])
         \<and> written_frames new = []
         \<and> (ConsoleError \<in> set new) =
             (3200 \<le> length (inputAudioBuffer st) \<and> (session st \<or> ws st = Some OPEN)
                \<and> send_throws))
   \<and> inputAudioBuffer (inputAudioBuffer_tick send_throws st) =
        (if 3200 \<le> length (inputAudioBuffer st) then drop 3200 (inputAudioBuffer st)
         else inputAudioBuffer st)
   \<and> (length (inputAudioBuffer st) < 3200 \<longrightarrow> inputAudioBuffer_tick send_throws st = st)
   \<and> ((session st \<or> ws st = Some OPEN) \<and> \<not> send_throws \<longrightarrow>
        concat (sent_frames (effects (inputAudioBuffer_tick send_throws st)))
          @ inputAudioBuffer (inputAudioBuffer_tick send_throws st)
        = concat (sent_frames (effects st)) @ inputAudioBuffer st)
   \<and> (3200 \<le> length (inputAudioBuffer st)
        \<and> (send_throws \<or> \<not> session st \<and> ws st \<noteq> Some OPEN) \<longrightarrow>
        sent_frames (effects (inputAudioBuffer_tick send_throws st)) = sent_frames (effects st)
        \<and> take 3200 (inputAudioBuffer st) @ inputAudioBuffer (inputAudioBuffer_tick send_throws st)
            = inputAudioBuffer st)
   \<and> (\<not> session st \<and> ws st \<noteq> Some OPEN \<longrightarrow>
        effects (inputAudioBuffer_tick send_throws st) = effects st)
   \<and> effects (outputAudioBuffer_tick st) = effects st @
        (if 320 \<le> length (outputAudioBuffer st) then [ResWrite (take 320 (outputAudioBuffer st))]
         else [])
   \<and> outputAudioBuffer (outputAudioBuffer_tick st) =
        (if 320 \<le> length (outputAudioBuffer st) then drop 320 (outputAudioBuffer st)
         else outputAudioBuffer st)
   \<and> (length (outputAudioBuffer st) < 320 \<longrightarrow> outputAudioBuffer_tick st = st)
   \<and> concat (written_frames (effects (outputAudioBuffer_tick st)))
          @ outputAudioBuffer (outputAudioBuffer_tick st)
        = concat (written_frames (effects st)) @ outputAudioBuffer st
   \<and> SetInterval inputAudioBufferInterval 100
        \<in> set (effects (handleAudioStream explicitWsUrl Connected silence_throws interval_env))
   \<and> SetInterval outputAudioBufferInterval (INTERVAL_MS interval_env)
        \<in> set (effects (handleAudioStream explicitWsUrl Connected silence_throws interval_env))
   \<and> INTERVAL_MS None = 20"
proof -
  let ?up = "inputAudioBuffer_tick send_throws st" and ?down = "outputAudioBuffer_tick st"
  let ?chunk = "take 3200 (inputAudioBuffer st)"
  have up_short: "?up = st" if "length (inputAudioBuffer st) < 3200"
    using that by (simp add: inputAudioBuffer_tick_def INPUT_CHUNK_BYTES_16K_100MS_def)
  have up_effects: "effects ?up = effects st @
      (if 3200 \<le> length (inputAudioBuffer st)
       then if session st
            then if send_throws then [SessionSendRealtimeInput ?chunk Raised, ConsoleError]
                 else [SessionSendRealtimeInput ?chunk Returned]
            else if ws st = Some OPEN
            then if send_throws then [WsSend ?chunk Raised, ConsoleError]
                 else [WsSend ?chunk Returned]
            else []
       else [])"
    by (simp add: inputAudioBuffer_tick_def INPUT_CHUNK_BYTES_16K_100MS_def Let_def)
  have up_queue: "inputAudioBuffer ?up =
      (if 3200 \<le> length (inputAudioBuffer st) then drop 3200 (inputAudioBuffer st)
       else inputAudioBuffer st)"
    by (simp add: inputAudioBuffer_tick_def INPUT_CHUNK_BYTES_16K_100MS_def Let_def)
  have up_frames: "\<exists>new. effects ?up = effects st @ new
         \<and> sent_frames new =
             (if 3200 \<le> length (inputAudioBuffer st) \<and> (session st \<or> ws st = Some OPEN)
                 \<and> \<not> send_throws
              then [?chunk] else [])
         \<and> written_frames new = []
         \<and> (ConsoleError \<in> set new) =
             (3200 \<le> length (inputAudioBuffer st) \<and> (session st \<or> ws st = Some OPEN)
                \<and> send_throws)"
    unfolding up_effects by auto
  have up_fifo: "concat (sent_frames (effects ?up)) @ inputAudioBuffer ?up
        = concat (sent_frames (effects st)) @ inputAudioBuffer st"
    if "(session st \<or> ws st = Some OPEN) \<and> \<not> send_throws"
    unfolding up_effects up_queue using that by (auto simp: sent_frames_append)
  have up_lost: "sent_frames (effects ?up) = sent_frames (effects st)"
      "?chunk @ inputAudioBuffer ?up = inputAudioBuffer st"
    if "3200 \<le> length (inputAudioBuffer st)
        \<and> (send_throws \<or> \<not> session st \<and> ws st \<noteq> Some OPEN)"
    unfolding up_effects up_queue using that by (auto simp: sent_frames_append)
  have up_silent: "effects ?up = effects st" if "\<not> session st \<and> ws st \<noteq> Some OPEN"
    unfolding up_effects using that by simp
  have down_short: "?down = st" if "length (outputAudioBuffer st) < 320"
    using that by (simp add: outputAudioBuffer_tick_def)
  have down_effects: "effects ?down = effects st @
        (if 320 \<le> length (outputAudioBuffer st) then [ResWrite (take 320 (outputAudioBuffer st))]
         else [])"
    by (simp add: outputAudioBuffer_tick_def Let_def)
  have down_queue: "outputAudioBuffer ?down =
        (if 320 \<le> length (outputAudioBuffer st) then drop 320 (outputAudioBuffer st)
         else outputAudioBuffer st)"
    by (simp add: outputAudioBuffer_tick_def Let_def)
  have down_fifo: "concat (written_frames (effects ?down)) @ outputAudioBuffer ?down
        = concat (written_frames (effects st)) @ outputAudioBuffer st"
    unfolding down_effects down_queue by (simp add: written_frames_append)
  have cadence: "SetInterval inputAudioBufferInterval 100
        \<in> set (effects (handleAudioStream explicitWsUrl Connected silence_throws interval_env))"
      "SetInterval outputAudioBufferInterval (INTERVAL_MS interval_env)
        \<in> set (effects (handleAudioStream explicitWsUrl Connected silence_throws interval_env))"
      "INTERVAL_MS None = 20"
    by (simp_all add: handleAudioStream_def establish_def request_start_def INTERVAL_MS_def)
  show ?thesis
    using up_frames up_queue up_short up_fifo up_lost up_silent down_effects down_queue
      down_short down_fifo cadence
    by (intro conjI impI) assumption+
qed

theorem accumulator_tick_witness:
  "inputAudioBuffer (inputAudioBuffer_tick False
      ((handleAudioStream False Connected False None)
         \<lparr>inputAudioBuffer := replicate 3200 1 @ [7, 8],
          outputAudioBuffer := replicate 320 2 @ [9]\<rparr>)) = [7, 8]
   \<and> sent_frames (effects (inputAudioBuffer_tick False
      ((handleAudioStream False Connected False None)
         \<lparr>inputAudioBuffer := replicate 3200 1 @ [7, 8],
          outputAudioBuffer := replicate 320 2 @ [9]\<rparr>)))
       = [replicate 3200 0, replicate 3200 1]
   \<and> inputAudioBuffer (inputAudioBuffer_tick True
      ((handleAudioStream False Connected False None)
         \<lparr>inputAudioBuffer := replicate 3200 1 @ [7, 8],
          outputAudioBuffer := replicate 320 2 @ [9]\<rparr>)) = [7, 8]
   \<and> sent_frames (effects (inputAudioBuffer_tick True
      ((handleAudioStream False Connected False None)
         \<lparr>inputAudioBuffer := replicate 3200 1 @ [7, 8],
          outputAudioBuffer := replicate 320 2 @ [9]\<rparr>)))
       = [replicate 3200 0]
   \<and> outputAudioBuffer (outputAudioBuffer_tick
      ((handleAudioStream False Connected False None)
         \<lparr>inputAudioBuffer := replicate 3200 1 @ [7, 8],
          outputAudioBuffer := replicate 320 2 @ [9]\<rparr>)) = [9]
   \<and> written_frames (effects (outputAudioBuffer_tick
      ((handleAudioStream False Connected False None)
         \<lparr>inputAudioBuffer := replicate 3200 1 @ [7, 8],
          outputAudioBuffer := replicate 320 2 @ [9]\<rparr>)))
       = [replicate 320 2]
   \<and> inputAudioBuffer (inputAudioBuffer_tick False
      ((handleAudioStream True Connected False None)
         \<lparr>inputAudioBuffer := replicate 3200 1 @ [7, 8]\<rparr>)) = [7, 8]
   \<and> sent_frames (effects (inputAudioBuffer_tick False
      ((handleAudioStream True Connected False None)
         \<lparr>inputAudioBuffer := replicate 3200 1 @ [7, 8]\<rparr>))) = []
   \<and> inputAudioBuffer_tick False
     ((handleAudioStream False Connected False None)
        \<lparr>inputAudioBuffer := [1, 2], outputAudioBuffer := [3, 4]\<rparr>)
     = (handleAudioStream False Connected False None)
        \<lparr>inputAudioBuffer := [1, 2], outputAudioBuffer := [3, 4]\<rparr>
   \<and> outputAudioBuffer_tick
     ((handleAudioStream False Connected False None)
        \<lparr>inputAudioBuffer := [1, 2], outputAudioBuffer := [3, 4]\<rparr>)
     = (handleAudioStream False Connected False None)
        \<lparr>inputAudioBuffer := [1, 2], outputAudioBuffer := [3, 4]\<rparr>"
proof -
  let ?sdk = "handleAudioStream False Connected False None"
  let ?raw = "handleAudioStream True Connected False None"
  let ?full = "?sdk\<lparr>inputAudioBuffer := replicate 3200 1 @ [7, 8],
                       outputAudioBuffer := replicate 320 2 @ [9]\<rparr>"
  let ?closed = "?raw\<lparr>inputAudioBuffer := replicate 3200 1 @ [7, 8]\<rparr>"
  let ?idle = "?sdk\<lparr>inputAudioBuffer := [1, 2], outputAudioBuffer := [3, 4]\<rparr>"
  have sdk: "session ?sdk" "ws ?sdk = None"
      "sent_frames (effects ?sdk) = [replicate 3200 0]" "written_frames (effects ?sdk) = []"
    by (simp_all add: handleAudioStream_def establish_def request_start_def Buffer_alloc_def)
  have raw: "\<not> session ?raw" "ws ?raw = Some CONNECTING" "sent_frames (effects ?raw) = []"
    by (simp_all add: handleAudioStream_def establish_def request_start_def)
  have sent: "inputAudioBuffer (inputAudioBuffer_tick False ?full) = [7, 8]"
      "sent_frames (effects (inputAudioBuffer_tick False ?full))
         = [replicate 3200 0, replicate 3200 1]"
    using accumulator_tick [of False ?full False False None] sdk by (auto simp: sent_frames_append)
  have raised: "inputAudioBuffer (inputAudioBuffer_tick True ?full) = [7, 8]"
      "sent_frames (effects (inputAudioBuffer_tick True ?full)) = [replicate 3200 0]"
    using accumulator_tick [of True ?full False False None] sdk by (auto simp: sent_frames_append)
  have written: "outputAudioBuffer (outputAudioBuffer_tick ?full) = [9]"
      "written_frames (effects (outputAudioBuffer_tick ?full)) = [replicate 320 2]"
    using accumulator_tick [of False ?full False False None] sdk by (auto simp: written_frames_append)
  have discarded: "inputAudioBuffer (inputAudioBuffer_tick False ?closed) = [7, 8]"
      "sent_frames (effects (inputAudioBuffer_tick False ?closed)) = []"
    using accumulator_tick [of False ?closed False False None] raw by (auto simp: sent_frames_append)
  have idle: "inputAudioBuffer_tick False ?idle = ?idle" "outputAudioBuffer_tick ?idle = ?idle"
    using accumulator_tick [of False ?idle False False None] by simp_all
  show ?thesis
    using sent raised written discarded idle by (intro conjI) assumption+
qed

text \<open>
  Claim C5 as stated fails: with a raw WebSocket still connecting and one full frame
  queued, the uplink tick removes the frame and sends nothing.
\<close>

theorem uplink_frame_discarded_while_connecting:
  "3200 \<le> length (inputAudioBuffer
       ((handleAudioStream True Connected False None)\<lparr>inputAudioBuffer := replicate 3200 0\<rparr>))
   \<and> step Buffer_from_none (InputTick False)
       ((handleAudioStream True Connected False None)\<lparr>inputAudioBuffer := replicate 3200 0\<rparr>)
     = Inr ((handleAudioStream True Connected False None)\<lparr>inputAudioBuffer := []\<rparr>)
   \<and> sent_frames (effects ((handleAudioStream True Connected False None)\<lparr>inputAudioBuffer := []\<rparr>))
     = []"
  by (simp add: step_def handleAudioStream_def establish_def request_start_def inputAudioBuffer_tick_def
      INPUT_CHUNK_BYTES_16K_100MS_def Let_def Buffer_alloc_def)

text \<open>
  Claim C6 says that every termination path cancels both timers and closes the transport.
  On the SDK transport no sequence of events cancels a timer or ends the response: the
  \<open>end\<close> and \<open>error\<close> handlers of the request close the session and nothing else, and
  the session's own callbacks only log. After the request has ended and the session has
  reported its close, both timers are still running.
\<close>

theorem sdk_transport_never_cancels_timers:
  assumes "run Buffer_from evs (handleAudioStream False Connected silence_throws interval_env)
           = Inr st'"
  shows "running st' = {inputAudioBufferInterval, outputAudioBufferInterval}
     \<and> (\<forall>t. ClearInterval t \<notin> set (effects st'))
     \<and> ResEnd \<notin> set (effects st')"
proof -
  let ?st = "handleAudioStream False Connected silence_throws interval_env"
  have init: "session ?st" "ws ?st = None"
      "running ?st = {inputAudioBufferInterval, outputAudioBufferInterval}"
      "\<forall>t. ClearInterval t \<notin> set (effects ?st)" "ResEnd \<notin> set (effects ?st)"
    by (simp_all add: handleAudioStream_def establish_def request_start_def)
  from sdk_run_keeps_timers [OF init(1,2) assms]
  obtain new where new: "running st' = running ?st" "effects st' = effects ?st @ new"
      "\<forall>t. ClearInterval t \<notin> set new" "ResEnd \<notin> set new"
    by blast
  show ?thesis
    using init(3,4,5) new by simp
qed

theorem sdk_transport_never_cancels_timers_witness:
  "\<exists>st'. run Buffer_from_none [ReqEnd, SdkClose] (handleAudioStream False Connected False None)
           = Inr st'
     \<and> SessionClose \<in> set (effects st')
     \<and> running st' = {inputAudioBufferInterval, outputAudioBufferInterval}
     \<and> ClearInterval inputAudioBufferInterval \<notin> set (effects st')
     \<and> ClearInterval outputAudioBufferInterval \<notin> set (effects st')
     \<and> ResEnd \<notin> set (effects st')"
  using sdk_transport_never_cancels_timers [OF request_end_on_sdk_transport]
    request_end_on_sdk_transport
  by simp

text \<open>
  Claim C7. When establishing the remote session throws, the response gets status 502 and
  is ended with no body written, no timer is set and nothing is sent. No handler of the
  request, of a socket or of a timer exists afterwards, so whatever events follow, the
  request's variables stay as they are, no timer is ever set, nothing is ever sent or
  written and the response is not ended a second time; the one call an event can still
  cause is the \<open>console.error\<close> of the SDK's \<open>onerror\<close> callback, which was handed over
  in the connect call.
\<close>

theorem connect_failure_is_terminal:
  assumes "establish explicitWsUrl outcome silence_throws request_start = Inl e"
  shows "effects (handleAudioStream explicitWsUrl outcome silence_throws interval_env)
       = [ConsoleError, ResStatus 502, ResEnd]
     \<and> running (handleAudioStream explicitWsUrl outcome silence_throws interval_env) = {}
     \<and> \<not> listening (handleAudioStream explicitWsUrl outcome silence_throws interval_env)
     \<and> written_frames (effects (handleAudioStream explicitWsUrl outcome silence_throws interval_env)) = []
     \<and> sent_frames (effects (handleAudioStream explicitWsUrl outcome silence_throws interval_env)) = []
     \<and> (\<forall>t ms. SetInterval t ms
           \<notin> set (effects (handleAudioStream explicitWsUrl outcome silence_throws interval_env)))
     \<and> (\<exists>st'. run Buffer_from evs
                 (handleAudioStream explicitWsUrl outcome silence_throws interval_env) = Inr st'
           \<and> st' = (handleAudioStream explicitWsUrl outcome silence_throws interval_env)
                 \<lparr>effects := [ConsoleError, ResStatus 502, ResEnd]
                              @ replicate (count_list evs SdkError) ConsoleError\<rparr>
           \<and> running st' = {}
           \<and> (\<forall>t ms. SetInterval t ms \<notin> set (effects st'))
           \<and> sent_frames (effects st') = []
           \<and> written_frames (effects st') = []
           \<and> count_list (effects st') ResEnd = 1)"
proof -
  let ?st = "handleAudioStream explicitWsUrl outcome silence_throws interval_env"
  let ?logs = "replicate (count_list evs SdkError) ConsoleError"
  have st: "?st = request_start\<lparr>effects := [ConsoleError, ResStatus 502, ResEnd]\<rparr>"
    using assms by (simp add: handleAudioStream_def request_start_def)
  have now: "effects ?st = [ConsoleError, ResStatus 502, ResEnd]" "running ?st = {}"
      "\<not> listening ?st"
    unfolding st by (simp_all add: request_start_def)
  from unregistered_request_only_logs [OF now(3)]
  have later: "run Buffer_from evs ?st
      = Inr (?st\<lparr>effects := [ConsoleError, ResStatus 502, ResEnd] @ ?logs\<rparr>)"
    unfolding now(1) .
  have no_timer: "SetInterval t ms \<notin> set ([ConsoleError, ResStatus 502, ResEnd] @ ?logs)"
    for t ms by auto
  have frames: "sent_frames ([ConsoleError, ResStatus 502, ResEnd] @ ?logs) = []"
      "written_frames ([ConsoleError, ResStatus 502, ResEnd] @ ?logs) = []"
    by (simp_all add: sent_frames_logs written_frames_logs)
  have "count_list ?logs ResEnd = 0"
    by (simp add: count_list_0_iff)
  then have once: "count_list ([ConsoleError, ResStatus 502, ResEnd] @ ?logs) ResEnd = 1"
    by simp
  show ?thesis
    using later no_timer frames once now by simp
qed

theorem connect_failure_is_terminal_witness:
  "effects (handleAudioStream False (ConnectThrows Error) False None)
     = [ConsoleError, ResStatus 502, ResEnd]
   \<and> (\<exists>st'. run Buffer_from_none
         [ReqData [1, 2, 3, 4], InputTick False, SdkError, OutputTick, ReqEnd, SdkClose]
         (handleAudioStream False (ConnectThrows Error) False None) = Inr st'
       \<and> effects st' = [ConsoleError, ResStatus 502, ResEnd, ConsoleError]
       \<and> running st' = {})"
  using connect_failure_is_terminal [of False "ConnectThrows Error" False Error None
      Buffer_from_none
      "[ReqData [1, 2, 3, 4], InputTick False, SdkError, OutputTick, ReqEnd, SdkClose]"]
  by (simp add: establish_def)

text \<open>
  Claim C8, as amended. The raw WebSocket's message handler never raises. On a message
  that is unparseable JSON or carries no truthy audio field the downlink buffer, the
  transport, the timers and the handlers are left as they are, and a later message is
  processed as if the skipped one had not arrived. The handler logs an error when the
  message is unparseable; a parseable message without an audio field changes nothing at
  all.
\<close>

theorem ws_message_skipped:
  "(\<exists>st'. step Buffer_from (WsMessage parsed) st = Inr st')
   \<and> (unrecognized parsed \<longrightarrow>
        ws_on_message Buffer_from parsed st =
          (case parsed of Inl e \<Rightarrow> st\<lparr>effects := effects st @ [ConsoleError]\<rparr> | Inr m \<Rightarrow> st)
        \<and> outputAudioBuffer (ws_on_message Buffer_from parsed st) = outputAudioBuffer st
        \<and> session (ws_on_message Buffer_from parsed st) = session st
        \<and> ws (ws_on_message Buffer_from parsed st) = ws st
        \<and> listening (ws_on_message Buffer_from parsed st) = listening st
        \<and> running (ws_on_message Buffer_from parsed st) = running st
        \<and> outputAudioBuffer (ws_on_message Buffer_from later (ws_on_message Buffer_from parsed st))
            = outputAudioBuffer (ws_on_message Buffer_from later st))"
proof -
  have ret: "\<exists>st'. step Buffer_from (WsMessage parsed) st = Inr st'"
    by (simp add: step_def)
  have skip: "ws_on_message Buffer_from parsed st =
        (case parsed of Inl e \<Rightarrow> st\<lparr>effects := effects st @ [ConsoleError]\<rparr> | Inr m \<Rightarrow> st)"
    if "unrecognized parsed"
    using that by (rule ws_on_message_unrecognized)
  have buf: "outputAudioBuffer (ws_on_message Buffer_from parsed st) = outputAudioBuffer st"
    if "unrecognized parsed"
    unfolding skip [OF that] by (cases parsed) simp_all
  have later: "outputAudioBuffer (ws_on_message Buffer_from later (ws_on_message Buffer_from parsed st))
            = outputAudioBuffer (ws_on_message Buffer_from later st)"
    if "unrecognized parsed"
    unfolding skip [OF that]
    by (cases parsed) (simp_all add: ws_on_message_effects_irrelevant)
  show ?thesis
    using ret skip buf later ws_on_message_keeps_session [of Buffer_from parsed st]
    by blast
qed

theorem ws_message_skipped_witness:
  "ws_on_message Buffer_from_none (Inl SyntaxError) (handleAudioStream True Connected False None)
     = (handleAudioStream True Connected False None)
         \<lparr>effects := effects (handleAudioStream True Connected False None) @ [ConsoleError]\<rparr>
   \<and> ws_on_message Buffer_from_none (Inr (JObj [(''type'', JStr ''ping'')]))
        (handleAudioStream True Connected False None)
     = handleAudioStream True Connected False None"
  using ws_message_skipped [of Buffer_from_none "Inl SyntaxError"
          "handleAudioStream True Connected False None"]
        ws_message_skipped [of Buffer_from_none "Inr (JObj [(''type'', JStr ''ping'')])"
          "handleAudioStream True Connected False None"]
  by (simp add: unrecognized_def audio_field_def js_or_def)

text \<open>
  Claim C8 as stated fails on the logging: a parseable message without an audio field is
  skipped without any call to \<open>console.error\<close>.
\<close>

theorem unrecognized_message_not_logged:
  "unrecognized (Inr (JObj [(''type'', JStr ''ping'')]))
   \<and> effects (ws_on_message Buffer_from_none (Inr (JObj [(''type'', JStr ''ping'')]))
        (handleAudioStream True Connected False None))
     = effects (handleAudioStream True Connected False None)
   \<and> ConsoleError \<notin> set (effects (ws_on_message Buffer_from_none
        (Inr (JObj [(''type'', JStr ''ping'')])) (handleAudioStream True Connected False None)))"
  by (simp add: unrecognized_def audio_field_def js_or_def ws_on_message_def bind_err_def
      handleAudioStream_def establish_def request_start_def Let_def)

text \<open>
  Claim C9, as amended. An unset, empty or whitespace-only name gives the default model; a
  name whose lowercase form contains \<open>flash-live\<close> gives the default model; otherwise
  a name whose lowercase form contains \<open>native-audio\<close> gives the native-audio model;
  otherwise the name is trimmed of surrounding whitespace and the trimmed name is returned,
  as it is when its lowercase form starts with \<open>models/\<close> and prefixed with
  \<open>models/\<close> when not.
\<close>

theorem resolveLiveModel_cases:
  "resolveLiveModel None = ''models/gemini-live-2.5-flash-preview''
   \<and> ((\<forall>c\<in>set raw. isWhiteSpace c) \<longrightarrow>
        resolveLiveModel (Some raw) = ''models/gemini-live-2.5-flash-preview'')
   \<and> (includes_str (toLowerCase raw) ''flash-live'' \<longrightarrow>
        resolveLiveModel (Some raw) = ''models/gemini-live-2.5-flash-preview'')
   \<and> (\<not> includes_str (toLowerCase raw) ''flash-live''
        \<and> includes_str (toLowerCase raw) ''native-audio'' \<longrightarrow>
        resolveLiveModel (Some raw) = ''models/gemini-2.5-flash-preview-native-audio-dialog'')
   \<and> (\<not> (\<forall>c\<in>set raw. isWhiteSpace c)
        \<and> \<not> includes_str (toLowerCase raw) ''flash-live''
        \<and> \<not> includes_str (toLowerCase raw) ''native-audio'' \<longrightarrow>
        resolveLiveModel (Some raw) =
          (if startsWith (toLowerCase (trim raw)) ''models/'' then trim raw
           else ''models/'' @ trim raw))"
proof -
  have none: "resolveLiveModel None = ''models/gemini-live-2.5-flash-preview''"
    by (simp add: resolveLiveModel_def trim_def)
  have some: "resolveLiveModel (Some raw) =
     (if \<forall>c\<in>set raw. isWhiteSpace c then ''models/gemini-live-2.5-flash-preview''
      else if includes_str (toLowerCase raw) ''flash-live''
      then ''models/gemini-live-2.5-flash-preview''
      else if includes_str (toLowerCase raw) ''native-audio''
      then ''models/gemini-2.5-flash-preview-native-audio-dialog''
      else if startsWith (toLowerCase (trim raw)) ''models/'' then trim raw
      else ''models/'' @ trim raw)"
    by (simp only: resolveLiveModel_def option.case Let_def trim_eq_Nil
        includes_flash_live includes_native_audio)
  have blank: "\<not> includes_str (toLowerCase raw) p"
    if "\<forall>c\<in>set raw. isWhiteSpace c" "p \<noteq> []" "\<not> isWhiteSpace (hd p)" "\<not> isWhiteSpace (last p)"
    for p
  proof -
    from that(1) have "trim raw = []" by (simp only: trim_eq_Nil)
    then have "toLowerCase (trim raw) = []"
      by (simp add: toLowerCase_def)
    then have "trim (toLowerCase raw) = []"
      by (simp only: toLowerCase_trim)
    then have "includes_str (trim (toLowerCase raw)) p = False"
      using that(2) by simp
    then show ?thesis
      by (simp only: includes_str_trim [OF that(2,3,4)]) simp
  qed
  have native: "\<not> includes_str (toLowerCase raw) ''native-audio''"
    if "\<forall>c\<in>set raw. isWhiteSpace c"
    using that by (rule blank) (simp_all add: isWhiteSpace_def)
  have flash: "resolveLiveModel (Some raw) = ''models/gemini-live-2.5-flash-preview''"
    if "includes_str (toLowerCase raw) ''flash-live''"
    using that by (simp only: some) simp
  show ?thesis
    using none flash native by (auto simp: some)
qed

theorem resolveLiveModel_cases_witness:
  "resolveLiveModel (Some ''  '') = ''models/gemini-live-2.5-flash-preview''
   \<and> resolveLiveModel (Some ''Gemini-2.5-Flash-Live'') = ''models/gemini-live-2.5-flash-preview''
   \<and> resolveLiveModel (Some ''native-audio'') = ''models/gemini-2.5-flash-preview-native-audio-dialog''
   \<and> resolveLiveModel (Some '' my-model'') = ''models/my-model''
   \<and> resolveLiveModel (Some ''Models/x'') = ''Models/x''"
  using resolveLiveModel_cases [of "''  ''"]
    resolveLiveModel_cases [of "''Gemini-2.5-Flash-Live''"]
    resolveLiveModel_cases [of "''native-audio''"]
    resolveLiveModel_cases [of "'' my-model''"]
    resolveLiveModel_cases [of "''Models/x''"]
  by (simp add: isWhiteSpace_def toLowerCase_def lowerChar_def startsWith_def trim_def Let_def
      char_of_eq_iff)

text \<open>
  Claim C9 as stated fails on names with surrounding whitespace: such a name is not
  returned unchanged, and the prefix is put before the trimmed name.
\<close>

theorem resolveLiveModel_trims_name:
  "startsWith (toLowerCase ''models/x '') ''models/''
   \<and> \<not> includes_str (toLowerCase ''models/x '') ''flash-live''
   \<and> \<not> includes_str (toLowerCase ''models/x '') ''native-audio''
   \<and> resolveLiveModel (Some ''models/x '') = ''models/x''
   \<and> resolveLiveModel (Some ''models/x '') \<noteq> ''models/x ''
   \<and> \<not> startsWith (toLowerCase '' my-model'') ''models/''
   \<and> resolveLiveModel (Some '' my-model'') = ''models/my-model''
   \<and> resolveLiveModel (Some '' my-model'') \<noteq> ''models/ my-model''"
  by (simp add: resolveLiveModel_def isWhiteSpace_def toLowerCase_def lowerChar_def
      startsWith_def trim_def Let_def char_of_eq_iff)

end
